theory Spec2Isabelle
  imports Complex_Main "HOL-Library.Monad_Syntax" "HOL-Library.Sublist"
begin

section \<open>The UI-hierarchy module of batdroid\<close>

text \<open>
  A shallow embedding of the UI-hierarchy module (\<^verbatim>\<open>src/unnamed/part_000\<close>): the bounds
  codec \<^verbatim>\<open>parseBounds\<close>, the tag scanner \<^verbatim>\<open>parseUiAutomatorXml\<close> with \<^verbatim>\<open>extractAttr\<close>,
  the capture step \<^verbatim>\<open>getUiHierarchy\<close>, the query \<^verbatim>\<open>findElements\<close>, \<^verbatim>\<open>elementCenter\<close>, and the
  two renderers \<^verbatim>\<open>formatCompactTree\<close> and \<^verbatim>\<open>flattenHierarchy\<close>.

  Conventions of the model.
  \<^item> A JavaScript string is a \<open>string\<close>; one \<open>char\<close> stands for one code unit, so the
    model covers the code units below 256.
  \<^item> A JavaScript number is a \<open>Number\<close>: a binary64 value given by the rational it
    denotes, or one of \<^verbatim>\<open>Infinity\<close>, \<^verbatim>\<open>-Infinity\<close> and \<^verbatim>\<open>NaN\<close>. Every arithmetic result is
    rounded to the nearest binary64 value, ties to the even significand, as the source's
    arithmetic is. The two zeros are not told apart: no operation of the module tells
    them apart.
  \<^item> Each regular expression of the source is written out as the scanner it denotes:
    leftmost match, greedy quantifiers, the alternatives in their order.
\<close>

subsection \<open>Numbers\<close>

text \<open>A JavaScript number: a finite binary64 value, \<^verbatim>\<open>Infinity\<close>, \<^verbatim>\<open>-Infinity\<close> or \<^verbatim>\<open>NaN\<close>.\<close>

datatype Number = Finite rat | PosInfinity | NegInfinity | NaN

text \<open>The number of binary digits of a positive integer.\<close>

function bitLength :: "int \<Rightarrow> nat" where
  "bitLength n = (if n \<le> 0 then 0 else Suc (bitLength (n div 2)))"
  by pat_completeness auto
termination
  by (relation "measure nat") auto

definition pow2 :: "int \<Rightarrow> rat" where
  "pow2 e = (if 0 \<le> e then 2 ^ nat e else 1 / 2 ^ nat (- e))"

text \<open>The binary exponent of a rational \<open>v \<noteq> 0\<close>: the \<open>e\<close> with \<open>2\<^sup>e \<le> \<bar>v\<bar> < 2\<^sup>e\<^sup>+\<^sup>1\<close>. With
  \<open>\<bar>v\<bar> = a / b\<close> it is the difference of the bit lengths of \<open>a\<close> and \<open>b\<close>, or one less.\<close>

definition binaryExponent :: "rat \<Rightarrow> int" where
  "binaryExponent v =
     (let (a, b) = quotient_of \<bar>v\<bar>;
          d = int (bitLength a) - int (bitLength b)
      in if pow2 d \<le> \<bar>v\<bar> then d else d - 1)"

text \<open>The nearest integer, the even one of two equally near.\<close>

definition roundHalfEven :: "rat \<Rightarrow> int" where
  "roundHalfEven q =
     (let f = \<lfloor>q\<rfloor>; r = q - of_int f
      in if r < 1 / 2 then f
         else if 1 / 2 < r then f + 1
         else if even f then f else f + 1)"

text \<open>
  The binary64 value of a real result (IEEE 754 \<open>roundTiesToEven\<close>): a significand of 53
  bits, so the result is a multiple of \<open>2\<^sup>e\<^sup>-\<^sup>5\<^sup>2\<close>, of \<open>2\<^sup>-\<^sup>1\<^sup>0\<^sup>7\<^sup>4\<close> in the subnormal range; a
  result that rounds to \<open>2\<^sup>1\<^sup>0\<^sup>2\<^sup>4\<close> or beyond is infinite.
\<close>

definition toDouble :: "rat \<Rightarrow> Number" where
  "toDouble v =
     (if v = 0 then Finite 0
      else (let u = max (binaryExponent v - 52) (- 1074);
                r = of_int (roundHalfEven (v / pow2 u)) * pow2 u
            in if pow2 1024 \<le> r then PosInfinity
               else if r \<le> - pow2 1024 then NegInfinity
               else Finite r))"

text \<open>The operators \<^verbatim>\<open>-\<close> (unary), \<^verbatim>\<open>+\<close> and \<^verbatim>\<open>-\<close> (binary), and \<^verbatim>\<open>/ 2\<close>.\<close>

fun numNeg :: "Number \<Rightarrow> Number" where
  "numNeg (Finite a) = Finite (- a)"
| "numNeg PosInfinity = NegInfinity"
| "numNeg NegInfinity = PosInfinity"
| "numNeg NaN = NaN"

fun numAdd :: "Number \<Rightarrow> Number \<Rightarrow> Number" where
  "numAdd (Finite a) (Finite b) = toDouble (a + b)"
| "numAdd NaN b = NaN"
| "numAdd a NaN = NaN"
| "numAdd PosInfinity NegInfinity = NaN"
| "numAdd NegInfinity PosInfinity = NaN"
| "numAdd PosInfinity b = PosInfinity"
| "numAdd a PosInfinity = PosInfinity"
| "numAdd NegInfinity b = NegInfinity"
| "numAdd a NegInfinity = NegInfinity"

definition numSub :: "Number \<Rightarrow> Number \<Rightarrow> Number" where
  "numSub a b = numAdd a (numNeg b)"

fun numHalve :: "Number \<Rightarrow> Number" where
  "numHalve (Finite a) = toDouble (a / 2)"
| "numHalve a = a"

text \<open>\<^verbatim>\<open>Math.round\<close>: the nearest integer, the one towards \<open>+\<infinity>\<close> of two equally near; an
  infinity and \<^verbatim>\<open>NaN\<close> are returned as they are. The result needs no rounding: a binary64
  value of \<open>2\<^sup>5\<^sup>2\<close> or more in magnitude is an integer already.\<close>

fun mathRound :: "Number \<Rightarrow> Number" where
  "mathRound (Finite v) = Finite (of_int \<lfloor>v + 1 / 2\<rfloor>)"
| "mathRound a = a"

text \<open>The decimal digits of a natural number given as an integer.\<close>

function showDigits :: "int \<Rightarrow> string" where
  "showDigits n =
     (if n < 10 then [''0123456789'' ! nat n]
      else showDigits (n div 10) @ [''0123456789'' ! nat (n mod 10)])"
  by pat_completeness auto
termination
  by (relation "measure nat") auto

definition pow10 :: "int \<Rightarrow> rat" where
  "pow10 e = (if 0 \<le> e then 10 ^ nat e else 1 / 10 ^ nat (- e))"

text \<open>The decimal exponent of a rational \<open>v > 0\<close>: the \<open>n\<close> with \<open>10\<^sup>n\<^sup>-\<^sup>1 \<le> v < 10\<^sup>n\<close>.\<close>

definition decimalExponent :: "rat \<Rightarrow> int" where
  "decimalExponent v =
     (if 1 \<le> v then int (length (showDigits \<lfloor>v\<rfloor>))
      else (let m = int (length (showDigits \<lfloor>1 / v\<rfloor>))
            in if v = pow10 (1 - m) then 2 - m else 1 - m))"

text \<open>
  \<^verbatim>\<open>Number::toString\<close>, which a template literal applies to a number. For a finite \<open>v > 0\<close> it
  takes integers \<open>n\<close>, \<open>k\<close>, \<open>s\<close> with \<open>k \<ge> 1\<close>, \<open>10\<^sup>k\<^sup>-\<^sup>1 \<le> s < 10\<^sup>k\<close>, the binary64 value of
  \<open>s \<times> 10\<^sup>n\<^sup>-\<^sup>k\<close> being \<open>v\<close>, and \<open>k\<close> as small as possible; of several \<open>s\<close> the one whose
  \<open>s \<times> 10\<^sup>n\<^sup>-\<^sup>k\<close> is nearest to \<open>v\<close>, the even one of two equally near. Seventeen digits
  identify every binary64 value. \<open>digitCandidates\<close> lists the pairs \<open>(s, n)\<close> for one \<open>k\<close>.
\<close>

definition digitCandidates :: "rat \<Rightarrow> int \<Rightarrow> nat \<Rightarrow> (int \<times> int) list" where
  "digitCandidates v n0 k =
     [(s, n). n \<leftarrow> [n0, n0 + 1],
              s \<leftarrow> [\<lfloor>v / pow10 (n - int k)\<rfloor>, \<lfloor>v / pow10 (n - int k)\<rfloor> + 1],
              10 ^ (k - 1) \<le> s \<and> s < 10 ^ k \<and> toDouble (of_int s * pow10 (n - int k)) = Finite v]"

definition closer :: "rat \<Rightarrow> nat \<Rightarrow> int \<times> int \<Rightarrow> int \<times> int \<Rightarrow> int \<times> int" where
  "closer v k c best =
     (let dc = \<bar>of_int (fst c) * pow10 (snd c - int k) - v\<bar>;
          db = \<bar>of_int (fst best) * pow10 (snd best - int k) - v\<bar>
      in if dc < db \<or> (dc = db \<and> even (fst c) \<and> odd (fst best)) then c else best)"

fun shortestDigits :: "nat \<Rightarrow> rat \<Rightarrow> int \<Rightarrow> nat \<Rightarrow> ((int \<times> int) \<times> nat) option" where
  "shortestDigits 0 v n0 k = None"
| "shortestDigits (Suc fuel) v n0 k =
     (case digitCandidates v n0 k of
        [] \<Rightarrow> shortestDigits fuel v n0 (Suc k)
      | c # cs \<Rightarrow> Some (fold (closer v k) cs c, k))"

definition showPositive :: "rat \<Rightarrow> string" where
  "showPositive v =
     (case shortestDigits 17 v (decimalExponent v) 1 of
        None \<Rightarrow> []
      | Some ((s, n), k) \<Rightarrow>
          (let ds = showDigits s
           in if - 5 \<le> n \<and> n \<le> 21
              then (if int k \<le> n then ds @ replicate (nat (n - int k)) CHR ''0''
                    else if 0 < n then take (nat n) ds @ ''.'' @ drop (nat n) ds
                    else ''0.'' @ replicate (nat (- n)) CHR ''0'' @ ds)
              else (let e = n - 1;
                        ex = (if e < 0 then ''-'' else ''+'') @ showDigits \<bar>e\<bar>
                    in if k = 1 then ds @ ''e'' @ ex
                       else take 1 ds @ ''.'' @ drop 1 ds @ ''e'' @ ex)))"

fun showNumber :: "Number \<Rightarrow> string" where
  "showNumber NaN = ''NaN''"
| "showNumber PosInfinity = ''Infinity''"
| "showNumber NegInfinity = ''-Infinity''"
| "showNumber (Finite v) =
     (if v = 0 then ''0''
      else if v < 0 then ''-'' @ showPositive (- v)
      else showPositive v)"

subsection \<open>Data model\<close>

text \<open>\<^verbatim>\<open>UiElement["bounds"]\<close>: the fields \<^verbatim>\<open>x\<close>, \<^verbatim>\<open>y\<close>, \<^verbatim>\<open>width\<close>, \<^verbatim>\<open>height\<close>.\<close>

record Bounds =
  bounds_x :: Number
  bounds_y :: Number
  bounds_width :: Number
  bounds_height :: Number

text \<open>\<^verbatim>\<open>interface RawBounds\<close>.\<close>

record RawBounds =
  left :: Number
  top :: Number
  right :: Number
  bottom :: Number

text \<open>
  \<^verbatim>\<open>interface UiElement\<close>. The fields \<^verbatim>\<open>text\<close> and \<^verbatim>\<open>class\<close> are named \<open>text_attr\<close> and
  \<open>class_attr\<close> here, both words being reserved in Isabelle.
\<close>

datatype UiElement = UiElement
  (resource_id: string)
  (text_attr: string)
  (content_desc: string)
  (class_attr: string)
  (package: string)
  (bounds: Bounds)
  (clickable: bool)
  (enabled: bool)
  (scrollable: bool)
  (children: "UiElement list")

subsection \<open>Character classes of the regular expressions\<close>

text \<open>\<^verbatim>\<open>\d\<close>: the ten ASCII digits.\<close>

definition isDigit :: "char \<Rightarrow> bool" where
  "isDigit c = (c \<in> set ''0123456789'')"

text \<open>\<^verbatim>\<open>\s\<close> and the characters \<^verbatim>\<open>trim\<close> removes: tab, line feed, vertical tab, form feed,
  carriage return, space and the no-break space (the ones below 256).\<close>

definition isSpace :: "char \<Rightarrow> bool" where
  "isSpace c = (c \<in> {CHR 0x09, CHR 0x0A, CHR 0x0B, CHR 0x0C, CHR 0x0D, CHR 0x20, CHR 0xA0})"

text \<open>A list without its longest suffix of elements that satisfy a predicate.\<close>

definition dropWhileEnd :: "('a \<Rightarrow> bool) \<Rightarrow> 'a list \<Rightarrow> 'a list" where
  "dropWhileEnd P xs = rev (dropWhile P (rev xs))"

text \<open>The line terminators, which \<^verbatim>\<open>.\<close> does not match (the ones below 256).\<close>

definition isLineTerminator :: "char \<Rightarrow> bool" where
  "isLineTerminator c = (c \<in> {CHR 0x0A, CHR 0x0D})"

subsection \<open>Bounds codec: \<^verbatim>\<open>parseBounds\<close>\<close>

text \<open>One literal character of a pattern: the rest of the input when it is there.\<close>

fun expect :: "char \<Rightarrow> string \<Rightarrow> string option" where
  "expect c [] = None"
| "expect c (h # t) = (if h = c then Some t else None)"

text \<open>
  \<^verbatim>\<open>(\d+)\<close>: the longest run of digits, at least one. In the bounds pattern every group is
  followed by a literal that is no digit, so giving digits back never helps and the
  greedy run is the only candidate.
\<close>

definition scanDigits :: "string \<Rightarrow> (string \<times> string) option" where
  "scanDigits s =
     (let ds = takeWhile isDigit s
      in if ds = [] then None else Some (ds, dropWhile isDigit s))"

text \<open>\<^verbatim>\<open>/\[(\d+),(\d+)\]\[(\d+),(\d+)\]/\<close> matched at the start of the input: the four
  groups.\<close>

definition matchBoundsHere :: "string \<Rightarrow> (string \<times> string \<times> string \<times> string) option" where
  "matchBoundsHere s = do {
     r \<leftarrow> expect CHR ''['' s;
     (g1, r) \<leftarrow> scanDigits r;
     r \<leftarrow> expect CHR '','' r;
     (g2, r) \<leftarrow> scanDigits r;
     r \<leftarrow> expect CHR '']'' r;
     r \<leftarrow> expect CHR ''['' r;
     (g3, r) \<leftarrow> scanDigits r;
     r \<leftarrow> expect CHR '','' r;
     (g4, r) \<leftarrow> scanDigits r;
     r \<leftarrow> expect CHR '']'' r;
     Some (g1, g2, g3, g4)
   }"

text \<open>\<^verbatim>\<open>boundsStr.match(...)\<close>: the pattern is not anchored, the leftmost start wins.\<close>

fun matchBounds :: "string \<Rightarrow> (string \<times> string \<times> string \<times> string) option" where
  "matchBounds [] = matchBoundsHere []"
| "matchBounds (h # t) =
     (case matchBoundsHere (h # t) of
        Some m \<Rightarrow> Some m
      | None \<Rightarrow> matchBounds t)"

text \<open>The value of one decimal digit.\<close>

definition digitValue :: "char \<Rightarrow> int" where
  "digitValue c = int (of_char c) - 48"

text \<open>
  \<^verbatim>\<open>parseInt(s, 10)\<close> on a string that starts with neither white space nor a sign, as every
  group of the bounds pattern does: the binary64 value of the integer that the leading
  digits denote, \<^verbatim>\<open>NaN\<close> when there is no leading digit. The integer is rounded once, to the
  nearest value, as V8 does it (the language lets an implementation read the digits after
  the twentieth as zeros).
\<close>

definition parseInt :: "string \<Rightarrow> Number" where
  "parseInt s =
     (let ds = takeWhile isDigit s
      in if ds = [] then NaN
         else toDouble (of_int (foldl (\<lambda>acc c. 10 * acc + digitValue c) 0 ds)))"

definition parseBounds :: "string \<Rightarrow> Bounds" where
  "parseBounds boundsStr =
     (case matchBounds boundsStr of
        None \<Rightarrow> \<lparr>bounds_x = Finite 0, bounds_y = Finite 0,
                 bounds_width = Finite 0, bounds_height = Finite 0\<rparr>
      | Some (g1, g2, g3, g4) \<Rightarrow>
          (let raw = \<lparr>left = parseInt g1, top = parseInt g2,
                      right = parseInt g3, bottom = parseInt g4\<rparr>
           in \<lparr>bounds_x = left raw, bounds_y = top raw,
               bounds_width = numSub (right raw) (left raw),
               bounds_height = numSub (bottom raw) (top raw)\<rparr>))"

text \<open>
  The words of the specification, to compare the scanner with: a string holds the bounds
  pattern when it is \<open>pre [a,b][c,d] post\<close> with four non-empty runs of digits, and the
  number a run denotes is its value in base ten.
\<close>

definition digitRun :: "string \<Rightarrow> bool" where
  "digitRun ds = (ds \<noteq> [] \<and> list_all isDigit ds)"

definition boundsText :: "string \<Rightarrow> string \<Rightarrow> string \<Rightarrow> string \<Rightarrow> string" where
  "boundsText a b c d = ''['' @ a @ '','' @ b @ '']['' @ c @ '','' @ d @ '']''"

definition boundsOccurs :: "string \<Rightarrow> string \<Rightarrow> string \<Rightarrow> string \<Rightarrow> string \<Rightarrow> string \<Rightarrow> bool" where
  "boundsOccurs s pre a b c d =
     (digitRun a \<and> digitRun b \<and> digitRun c \<and> digitRun d \<and>
      prefix (pre @ boundsText a b c d) s)"

fun decimalLsd :: "string \<Rightarrow> int" where
  "decimalLsd [] = 0"
| "decimalLsd (c # cs) = digitValue c + 10 * decimalLsd cs"

definition decimal :: "string \<Rightarrow> int" where
  "decimal ds = decimalLsd (rev ds)"

subsection \<open>Attribute lookup: \<^verbatim>\<open>extractAttr\<close>\<close>

definition dquote :: char where
  "dquote = CHR 0x22"

text \<open>
  \<^verbatim>\<open>new RegExp(`${name}="([^"]*)"`)\<close> matched at the start of the input: the name, \<open>="\<close>,
  the longest run without a double quote, and a double quote; the result is the group. The
  names the source passes hold letters and hyphens only, so they stand for themselves in
  the pattern.
\<close>

definition matchAttrHere :: "string \<Rightarrow> string \<Rightarrow> string option" where
  "matchAttrHere name s =
     (if prefix (name @ [CHR ''='', dquote]) s
      then (let r = drop (length name + 2) s
            in case dropWhile (\<lambda>c. c \<noteq> dquote) r of
                 [] \<Rightarrow> None
               | q # _ \<Rightarrow> Some (takeWhile (\<lambda>c. c \<noteq> dquote) r))
      else None)"

text \<open>\<^verbatim>\<open>attrs.match(regex)\<close>: the leftmost start wins.\<close>

fun searchAttr :: "string \<Rightarrow> string \<Rightarrow> string option" where
  "searchAttr name [] = matchAttrHere name []"
| "searchAttr name (h # t) =
     (case matchAttrHere name (h # t) of
        Some v \<Rightarrow> Some v
      | None \<Rightarrow> searchAttr name t)"

definition extractAttr :: "string \<Rightarrow> string \<Rightarrow> string" where
  "extractAttr attrs name = (case searchAttr name attrs of Some v \<Rightarrow> v | None \<Rightarrow> [])"

subsection \<open>Structural parser: \<^verbatim>\<open>parseUiAutomatorXml\<close>\<close>

text \<open>The object literal that builds \<^verbatim>\<open>element\<close> from the attribute text of a tag.\<close>

definition buildElement :: "string \<Rightarrow> UiElement" where
  "buildElement attrs =
     UiElement
       (extractAttr attrs ''resource-id'')
       (extractAttr attrs ''text'')
       (extractAttr attrs ''content-desc'')
       (extractAttr attrs ''class'')
       (extractAttr attrs ''package'')
       (parseBounds (extractAttr attrs ''bounds''))
       (extractAttr attrs ''clickable'' = ''true'')
       (extractAttr attrs ''enabled'' = ''true'')
       (extractAttr attrs ''scrollable'' = ''true'')
       []"

text \<open>
  One match of \<^verbatim>\<open>tagRegex\<close>: an opening or self-closing tag with \<^verbatim>\<open>match[1]\<close> and
  \<^verbatim>\<open>fullMatch.endsWith("/>")\<close>, or the closing tag.
\<close>

datatype Token = OpenTag string bool | CloseTag

text \<open>
  \<^verbatim>\<open><node\s+([^>]*?)\s*\/?>\<close> at the start of the input. After \<open><node\<close> and the greedy
  white space, the tag ends at the first \<open>>\<close>; the lazy group is the shortest prefix of the
  text before it that leaves only white space and an optional slash, that is the text
  with one final slash, if any, and then the trailing white space removed. The full match
  ends in \<open>/>\<close> exactly when that text ends in a slash.
\<close>

definition matchOpenHere :: "string \<Rightarrow> (Token \<times> string) option" where
  "matchOpenHere s =
     (if prefix ''<node'' s
      then (let r = drop 5 s; r1 = dropWhile isSpace r
            in if takeWhile isSpace r = [] then None
               else (case dropWhile (\<lambda>c. c \<noteq> CHR ''>'') r1 of
                       [] \<Rightarrow> None
                     | gt # rest \<Rightarrow>
                         (let body = takeWhile (\<lambda>c. c \<noteq> CHR ''>'') r1;
                              isSelfClosing = (body \<noteq> [] \<and> last body = CHR ''/'');
                              attrs = dropWhileEnd isSpace
                                        (if isSelfClosing then butlast body else body)
                          in Some (OpenTag attrs isSelfClosing, rest))))
      else None)"

text \<open>\<^verbatim>\<open><\/node>\<close> at the start of the input.\<close>

definition matchCloseHere :: "string \<Rightarrow> (Token \<times> string) option" where
  "matchCloseHere s = (if prefix ''</node>'' s then Some (CloseTag, drop 7 s) else None)"

text \<open>\<^verbatim>\<open>tagRegex.exec(xml)\<close> from \<^verbatim>\<open>lastIndex\<close>: the next match and the input after it.\<close>

fun execTag :: "string \<Rightarrow> (Token \<times> string) option" where
  "execTag [] = None"
| "execTag (h # t) =
     (case matchOpenHere (h # t) of
        Some m \<Rightarrow> Some m
      | None \<Rightarrow>
          (case matchCloseHere (h # t) of
             Some m \<Rightarrow> Some m
           | None \<Rightarrow> execTag t))"

text \<open>
  The stack holds references to nodes that are already in the forest. A node never moves
  once it is attached (arrays only grow at the end), so a reference is the position of
  the node: its index among the roots, then the index in each \<^verbatim>\<open>children\<close> array on the
  way down.
\<close>

type_synonym NodeRef = "nat list"

definition setChildren :: "UiElement \<Rightarrow> UiElement list \<Rightarrow> UiElement" where
  "setChildren el ch =
     UiElement (resource_id el) (text_attr el) (content_desc el) (class_attr el)
       (package el) (bounds el) (clickable el) (enabled el) (scrollable el) ch"

text \<open>The \<^verbatim>\<open>children\<close> array of the node a reference points to.\<close>

fun childrenAt :: "NodeRef \<Rightarrow> UiElement list \<Rightarrow> UiElement list option" where
  "childrenAt [] forest = None"
| "childrenAt [i] forest =
     (if i < length forest then Some (children (forest ! i)) else None)"
| "childrenAt (i # j # p) forest =
     (if i < length forest then childrenAt (j # p) (children (forest ! i)) else None)"

text \<open>\<^verbatim>\<open>node.children.push(element)\<close> for the node a reference points to.\<close>

fun pushChild :: "NodeRef \<Rightarrow> UiElement \<Rightarrow> UiElement list \<Rightarrow> UiElement list" where
  "pushChild [] element forest = forest"
| "pushChild [i] element forest =
     (if i < length forest
      then forest[i := setChildren (forest ! i) (children (forest ! i) @ [element])]
      else forest)"
| "pushChild (i # j # p) element forest =
     (if i < length forest
      then forest[i := setChildren (forest ! i) (pushChild (j # p) element (children (forest ! i)))]
      else forest)"

text \<open>The state of the loop: \<^verbatim>\<open>elements\<close> and \<^verbatim>\<open>stack\<close> (the top is the last entry).\<close>

type_synonym ParserState = "UiElement list \<times> NodeRef list"

text \<open>The body of the \<^verbatim>\<open>while\<close> loop for one match. \<^verbatim>\<open>stack.pop()\<close> on an empty array
  returns \<^verbatim>\<open>undefined\<close> and leaves the array empty.\<close>

fun step :: "Token \<Rightarrow> ParserState \<Rightarrow> ParserState" where
  "step CloseTag (elements, stack) = (elements, butlast stack)"
| "step (OpenTag attrs isSelfClosing) (elements, stack) =
     (let element = buildElement attrs;
          (elements', ref) =
             (if length stack > 0
              then (pushChild (last stack) element elements,
                    last stack @ [case childrenAt (last stack) elements of
                                    Some ch \<Rightarrow> length ch
                                  | None \<Rightarrow> 0])
              else (elements @ [element], [length elements]))
      in (elements', if \<not> isSelfClosing then stack @ [ref] else stack))"

text \<open>
  \<^verbatim>\<open>while ((match = tagRegex.exec(xml)) !== null) { ... }\<close>: the loop runs on the input that
  is left after \<^verbatim>\<open>lastIndex\<close>; every match is at least seven characters long, so the input
  shrinks.
\<close>

lemma matchOpenHere_shorter:
  "matchOpenHere s = Some (tok, r) \<Longrightarrow> length r < length s"
proof -
  assume m: "matchOpenHere s = Some (tok, r)"
  have drop_le: "\<And>P (xs :: string) y ys. dropWhile P xs = y # ys \<Longrightarrow> length ys < length xs"
  proof -
    fix P and xs :: string and y ys
    assume "dropWhile P xs = y # ys"
    then have "length (y # ys) \<le> length xs"
      using length_dropWhile_le[of P xs] by simp
    then show "length ys < length xs" by simp
  qed
  from m obtain gt where d: "dropWhile (\<lambda>c. c \<noteq> CHR ''>'') (dropWhile isSpace (drop 5 s)) = gt # r"
    by (auto simp: matchOpenHere_def Let_def split: if_splits list.splits)
  from drop_le[OF d] have "length r < length (dropWhile isSpace (drop 5 s))" .
  also have "\<dots> \<le> length (drop 5 s)" by (rule length_dropWhile_le)
  also have "\<dots> \<le> length s" by simp
  finally show ?thesis .
qed

lemma matchCloseHere_shorter:
  "matchCloseHere s = Some (tok, r) \<Longrightarrow> length r < length s"
  by (auto simp: matchCloseHere_def prefix_def split: if_splits)

lemma execTag_shorter:
  "execTag s = Some (tok, r) \<Longrightarrow> length r < length s"
proof (induction s)
  case Nil
  then show ?case by simp
next
  case (Cons h t)
  show ?case
  proof (cases "matchOpenHere (h # t)")
    case (Some m)
    with Cons.prems show ?thesis by (auto dest: matchOpenHere_shorter)
  next
    case None
    show ?thesis
    proof (cases "matchCloseHere (h # t)")
      case (Some m)
      with None Cons.prems show ?thesis by (auto dest: matchCloseHere_shorter)
    next
      case None': None
      with None Cons.prems have "execTag t = Some (tok, r)" by simp
      from Cons.IH[OF this] show ?thesis by simp
    qed
  qed
qed

function parseLoop :: "string \<Rightarrow> ParserState \<Rightarrow> ParserState" where
  "parseLoop xml st =
     (case execTag xml of
        None \<Rightarrow> st
      | Some (tok, rest) \<Rightarrow> parseLoop rest (step tok st))"
  by pat_completeness auto
termination
  by (relation "measure (\<lambda>(xml, st). length xml)") (auto dest: execTag_shorter)

definition parseUiAutomatorXml :: "string \<Rightarrow> UiElement list" where
  "parseUiAutomatorXml xml = fst (parseLoop xml ([], []))"

subsection \<open>Capture step: \<^verbatim>\<open>getUiHierarchy\<close>\<close>

text \<open>
  Letters compared under the flag \<^verbatim>\<open>i\<close>: both sides are brought to upper case. Every
  character of the pattern is ASCII, and a character beyond ASCII never becomes an ASCII
  one, so only the twenty-six letters are folded.
\<close>

definition upperAscii :: "char \<Rightarrow> char" where
  "upperAscii c =
     (case map_of (zip ''abcdefghijklmnopqrstuvwxyz'' ''ABCDEFGHIJKLMNOPQRSTUVWXYZ'') c of
        Some u \<Rightarrow> u
      | None \<Rightarrow> c)"

text \<open>A literal piece of a pattern under the flag \<^verbatim>\<open>i\<close>: the rest of the input.\<close>

fun expectCI :: "string \<Rightarrow> string \<Rightarrow> string option" where
  "expectCI [] s = Some s"
| "expectCI (p # ps) [] = None"
| "expectCI (p # ps) (h # t) =
     (if upperAscii h = upperAscii p then expectCI ps t else None)"

text \<open>
  \<^verbatim>\<open>y dumped to:.*$\<close>: without the flag \<^verbatim>\<open>m\<close> the \<open>$\<close> is the end of the input, and \<open>.\<close> skips
  no line terminator, so everything after the colon must be free of line terminators.
\<close>

definition matchTrailerTail :: "string \<Rightarrow> bool" where
  "matchTrailerTail s =
     (case expectCI ''y dumped to:'' s of
        None \<Rightarrow> False
      | Some r \<Rightarrow> list_all (\<lambda>c. \<not> isLineTerminator c) r)"

text \<open>
  \<^verbatim>\<open>/UI hierarch?y dumped to:.*$/i\<close> at the start of the input. The optional \<open>h\<close> is
  greedy: it is taken first, and given back when the rest then fails.
\<close>

definition matchTrailerHere :: "string \<Rightarrow> bool" where
  "matchTrailerHere s =
     (case expectCI ''UI hierarc'' s of
        None \<Rightarrow> False
      | Some r \<Rightarrow>
          (case expectCI ''h'' r of
             Some r' \<Rightarrow> matchTrailerTail r' \<or> matchTrailerTail r
           | None \<Rightarrow> matchTrailerTail r))"

text \<open>
  \<^verbatim>\<open>xml.replace(/UI hierarch?y dumped to:.*$/i, "")\<close>: the leftmost match is removed; a
  match runs to the end of the input, so what stays is the text before it.
\<close>

fun stripTrailer :: "string \<Rightarrow> string" where
  "stripTrailer [] = []"
| "stripTrailer (h # t) = (if matchTrailerHere (h # t) then [] else h # stripTrailer t)"

text \<open>\<^verbatim>\<open>String.prototype.trim\<close>.\<close>

definition trim :: "string \<Rightarrow> string" where
  "trim s = dropWhileEnd isSpace (dropWhile isSpace s)"

text \<open>\<^verbatim>\<open>String.prototype.includes\<close>.\<close>

fun includesStr :: "string \<Rightarrow> string \<Rightarrow> bool" where
  "includesStr [] sub = (sub = [])"
| "includesStr (h # t) sub = (prefix sub (h # t) \<or> includesStr t sub)"

text \<open>\<^verbatim>\<open>new Error(message)\<close>.\<close>

datatype Error = Error (message: string)

text \<open>
  \<^verbatim>\<open>getUiHierarchy\<close> after the call of \<^verbatim>\<open>adb\<close>: the argument is the text the device tool
  printed. A failure of \<^verbatim>\<open>adb\<close> itself rejects the promise before this code runs.
\<close>

definition getUiHierarchy :: "string \<Rightarrow> Error + UiElement list" where
  "getUiHierarchy xml =
     (let xmlContent = trim (stripTrailer xml)
      in if \<not> includesStr xmlContent ''<hierarchy''
         then Inl (Error (''UIAutomator dump returned unexpected output: '' @ take 200 xmlContent))
         else Inr (parseUiAutomatorXml xmlContent))"

subsection \<open>Query: \<^verbatim>\<open>findElements\<close>\<close>

text \<open>The selector; an absent field is \<open>None\<close>.\<close>

record Selector =
  selector_resource_id :: "string option"
  selector_text :: "string option"
  selector_content_desc :: "string option"

text \<open>\<^verbatim>\<open>String.prototype.split\<close> with a separator of one character.\<close>

fun split :: "char \<Rightarrow> string \<Rightarrow> string list" where
  "split sep [] = [[]]"
| "split sep (h # t) =
     (if h = sep then [] # split sep t
      else (case split sep t of
              [] \<Rightarrow> [[h]]
            | w # ws \<Rightarrow> (h # w) # ws))"

text \<open>\<^verbatim>\<open>rid.includes("/") ? rid.split("/").pop()! : rid\<close>; \<^verbatim>\<open>pop\<close> takes the last
  entry of the array, which \<^verbatim>\<open>split\<close> never leaves empty.\<close>

definition idPart :: "string \<Rightarrow> string" where
  "idPart rid = (if includesStr rid ''/'' then last (split CHR ''/'' rid) else rid)"

text \<open>The value of \<^verbatim>\<open>match\<close> after the three tests of the loop body.\<close>

definition selectorMatch :: "Selector \<Rightarrow> UiElement \<Rightarrow> bool" where
  "selectorMatch selector el =
     (let match = True;
          match = (case selector_resource_id selector of
                     None \<Rightarrow> match
                   | Some v \<Rightarrow> match \<and> (resource_id el = v \<or> idPart (resource_id el) = v));
          match = (case selector_text selector of
                     None \<Rightarrow> match
                   | Some v \<Rightarrow> match \<and> text_attr el = v);
          match = (case selector_content_desc selector of
                     None \<Rightarrow> match
                   | Some v \<Rightarrow> match \<and> content_desc el = v)
      in match)"

lemma size_children [termination_simp]:
  "size_list size (children el) < size el"
  by (cases el) simp

text \<open>\<^verbatim>\<open>walk\<close> of \<^verbatim>\<open>findElements\<close>: the \<^verbatim>\<open>for\<close> loop over \<^verbatim>\<open>elements\<close>, with \<^verbatim>\<open>results\<close>
  passed through.\<close>

function findWalk :: "Selector \<Rightarrow> UiElement list \<Rightarrow> UiElement list \<Rightarrow> UiElement list" where
  "findWalk selector [] results = results"
| "findWalk selector (el # rest) results =
     findWalk selector rest
       (findWalk selector (children el)
          (if selectorMatch selector el then results @ [el] else results))"
  by pat_completeness auto
termination
  by (relation "measure (\<lambda>(selector, elements, results). size_list size elements)")
     (auto simp: size_children less_Suc_eq trans_less_add1)

definition findElements :: "UiElement list \<Rightarrow> Selector \<Rightarrow> UiElement list" where
  "findElements roots selector = findWalk selector roots []"

subsection \<open>\<^verbatim>\<open>elementCenter\<close>\<close>

record Point =
  point_x :: Number
  point_y :: Number

definition elementCenter :: "UiElement \<Rightarrow> Point" where
  "elementCenter el =
     \<lparr>point_x = mathRound (numAdd (bounds_x (bounds el)) (numHalve (bounds_width (bounds el)))),
      point_y = mathRound (numAdd (bounds_y (bounds el)) (numHalve (bounds_height (bounds el))))\<rparr>"

subsection \<open>Renderers: \<^verbatim>\<open>shortenClassName\<close>, \<^verbatim>\<open>formatCompactTree\<close>, \<^verbatim>\<open>flattenHierarchy\<close>\<close>

text \<open>The \<^verbatim>\<open>for\<close> loop over \<^verbatim>\<open>prefixes\<close>: the class without the first prefix it starts
  with.\<close>

fun stripFirstPrefix :: "string list \<Rightarrow> string \<Rightarrow> string option" where
  "stripFirstPrefix [] cls = None"
| "stripFirstPrefix (p # ps) cls =
     (if prefix p cls then Some (drop (length p) cls) else stripFirstPrefix ps cls)"

text \<open>\<^verbatim>\<open>cls.lastIndexOf(".")\<close>; \<open>None\<close> stands for \<open>-1\<close>.\<close>

fun lastIndexOf :: "string \<Rightarrow> char \<Rightarrow> nat option" where
  "lastIndexOf [] c = None"
| "lastIndexOf (h # t) c =
     (case lastIndexOf t c of
        Some i \<Rightarrow> Some (Suc i)
      | None \<Rightarrow> (if h = c then Some 0 else None))"

definition shortenClassName :: "string \<Rightarrow> string" where
  "shortenClassName cls =
     (case stripFirstPrefix [''android.widget.'', ''android.view.'', ''android.webkit.''] cls of
        Some short \<Rightarrow> short
      | None \<Rightarrow>
          (if prefix ''androidx.'' cls
           then (case lastIndexOf cls CHR ''.'' of
                   Some lastDot \<Rightarrow> drop (lastDot + 1) cls
                 | None \<Rightarrow> cls)
           else cls))"

text \<open>\<^verbatim>\<open>Array.prototype.join\<close>.\<close>

fun join :: "string \<Rightarrow> string list \<Rightarrow> string" where
  "join sep [] = []"
| "join sep [p] = p"
| "join sep (p # q # ps) = p @ sep @ join sep (q # ps)"

text \<open>The line that the loop body of \<^verbatim>\<open>formatCompactTree\<close> pushes for \<^verbatim>\<open>el\<close> at
  \<^verbatim>\<open>depth\<close>; an empty string is falsy.\<close>

definition compactLine :: "UiElement \<Rightarrow> nat \<Rightarrow> string" where
  "compactLine el depth =
     (let indent = concat (replicate depth ''  '');
          parts = [shortenClassName (class_attr el)];
          parts = (if text_attr el \<noteq> [] then parts @ [[dquote] @ text_attr el @ [dquote]]
                   else parts);
          b = bounds el;
          parts = parts @ [''['' @ showNumber (bounds_x b) @ '','' @ showNumber (bounds_y b) @ '' '' @
                           showNumber (bounds_width b) @ ''x'' @ showNumber (bounds_height b) @ '']''];
          parts = (if resource_id el \<noteq> []
                   then parts @ [''id:'' @ (if includesStr (resource_id el) ''/''
                                            then last (split CHR ''/'' (resource_id el))
                                            else resource_id el)]
                   else parts);
          parts = (if content_desc el \<noteq> []
                   then parts @ [''desc:'' @ [dquote] @ content_desc el @ [dquote]]
                   else parts);
          parts = (if clickable el then parts @ [''[clickable]''] else parts);
          parts = (if scrollable el then parts @ [''[scrollable]''] else parts)
      in indent @ join '' '' parts)"

lemma size_children_double:
  "2 * size_list size (children el) < Suc (2 * size el + 2 * n)"
  using size_children[of el] by arith

text \<open>\<^verbatim>\<open>walk\<close> of \<^verbatim>\<open>formatCompactTree\<close>: the guard, then the \<^verbatim>\<open>for\<close> loop, with \<^verbatim>\<open>lines\<close>
  passed through.\<close>

function compactWalk :: "int \<Rightarrow> UiElement list \<Rightarrow> nat \<Rightarrow> string list \<Rightarrow> string list"
  and compactLoop :: "int \<Rightarrow> UiElement list \<Rightarrow> nat \<Rightarrow> string list \<Rightarrow> string list"
where
  "compactWalk maxDepth elements depth lines =
     (if int depth > maxDepth then lines else compactLoop maxDepth elements depth lines)"
| "compactLoop maxDepth [] depth lines = lines"
| "compactLoop maxDepth (el # rest) depth lines =
     compactLoop maxDepth rest depth
       (compactWalk maxDepth (children el) (depth + 1) (lines @ [compactLine el depth]))"
  by pat_completeness auto
termination
  by (relation "measure (\<lambda>x. case x of
                   Inl (maxDepth, elements, depth, lines) \<Rightarrow> 2 * size_list size elements + 1
                 | Inr (maxDepth, elements, depth, lines) \<Rightarrow> 2 * size_list size elements)")
     (auto simp: size_children_double)

text \<open>The lines before they are joined, and \<^verbatim>\<open>formatCompactTree\<close> with its optional
  \<^verbatim>\<open>maxDepth = 15\<close>.\<close>

definition compactLines :: "UiElement list \<Rightarrow> int \<Rightarrow> string list" where
  "compactLines roots maxDepth = compactWalk maxDepth roots 0 []"

definition formatCompactTree :: "UiElement list \<Rightarrow> int option \<Rightarrow> string" where
  "formatCompactTree roots maxDepthArg =
     (let maxDepth = (case maxDepthArg of None \<Rightarrow> 15 | Some k \<Rightarrow> k)
      in join [CHR 0x0A] (compactLines roots maxDepth))"

text \<open>\<^verbatim>\<open>UiElement & { depth: number }\<close>: the record \<^verbatim>\<open>{ ...el, depth, children: [] }\<close> is a
  new object with the fields of \<^verbatim>\<open>el\<close>, the depth, and a new empty \<^verbatim>\<open>children\<close> array.\<close>

datatype FlatElement = FlatElement (flat_element: UiElement) (flat_depth: nat)

definition flatRecord :: "UiElement \<Rightarrow> nat \<Rightarrow> FlatElement" where
  "flatRecord el depth = FlatElement (setChildren el []) depth"

text \<open>\<^verbatim>\<open>walk\<close> of \<^verbatim>\<open>flattenHierarchy\<close>.\<close>

function flattenWalk :: "int \<Rightarrow> UiElement list \<Rightarrow> nat \<Rightarrow> FlatElement list \<Rightarrow> FlatElement list"
  and flattenLoop :: "int \<Rightarrow> UiElement list \<Rightarrow> nat \<Rightarrow> FlatElement list \<Rightarrow> FlatElement list"
where
  "flattenWalk maxDepth elements depth result =
     (if int depth > maxDepth then result else flattenLoop maxDepth elements depth result)"
| "flattenLoop maxDepth [] depth result = result"
| "flattenLoop maxDepth (el # rest) depth result =
     flattenLoop maxDepth rest depth
       (flattenWalk maxDepth (children el) (depth + 1) (result @ [flatRecord el depth]))"
  by pat_completeness auto
termination
  by (relation "measure (\<lambda>x. case x of
                   Inl (maxDepth, elements, depth, result) \<Rightarrow> 2 * size_list size elements + 1
                 | Inr (maxDepth, elements, depth, result) \<Rightarrow> 2 * size_list size elements)")
     (auto simp: size_children_double)

text \<open>\<^verbatim>\<open>flattenHierarchy\<close> with its optional \<^verbatim>\<open>maxDepth = 20\<close>.\<close>

definition flattenHierarchy :: "UiElement list \<Rightarrow> int option \<Rightarrow> FlatElement list" where
  "flattenHierarchy roots maxDepthArg =
     (let maxDepth = (case maxDepthArg of None \<Rightarrow> 20 | Some k \<Rightarrow> k)
      in flattenWalk maxDepth roots 0 [])"

subsection \<open>The words of the specification\<close>

text \<open>
  The nodes of a forest in pre-order, each with its true depth: a node, then the nodes
  below it one level deeper, then its later siblings.
\<close>

function preorderFrom :: "nat \<Rightarrow> UiElement list \<Rightarrow> (nat \<times> UiElement) list" where
  "preorderFrom d [] = []"
| "preorderFrom d (el # rest) =
     (d, el) # preorderFrom (d + 1) (children el) @ preorderFrom d rest"
  by pat_completeness auto
termination
  by (relation "measure (\<lambda>(d, elements). size_list size elements)")
     (auto simp: size_children less_Suc_eq trans_less_add1)

definition preorder :: "UiElement list \<Rightarrow> UiElement list" where
  "preorder roots = map snd (preorderFrom 0 roots)"

text \<open>The substring after the last slash; the whole string when it has no slash.\<close>

definition afterLastSlash :: "string \<Rightarrow> string" where
  "afterLastSlash s = rev (takeWhile (\<lambda>c. c \<noteq> CHR ''/'') (rev s))"

text \<open>A node satisfies a selector when every field that is present holds.\<close>

definition satisfies :: "Selector \<Rightarrow> UiElement \<Rightarrow> bool" where
  "satisfies selector el =
     ((case selector_resource_id selector of
         None \<Rightarrow> True
       | Some v \<Rightarrow> resource_id el = v \<or> afterLastSlash (resource_id el) = v) \<and>
      (case selector_text selector of None \<Rightarrow> True | Some v \<Rightarrow> text_attr el = v) \<and>
      (case selector_content_desc selector of None \<Rightarrow> True | Some v \<Rightarrow> content_desc el = v))"

text \<open>Rounding to the nearest integer, a half away from zero.\<close>

definition roundHalfAwayFromZero :: "rat \<Rightarrow> int" where
  "roundHalfAwayFromZero v = (if 0 \<le> v then \<lfloor>v + 1 / 2\<rfloor> else - \<lfloor>- v + 1 / 2\<rfloor>)"

text \<open>An entry of the pre-order listing whose depth is within a limit.\<close>

definition withinDepth :: "int \<Rightarrow> nat \<times> UiElement \<Rightarrow> bool" where
  "withinDepth k entry = (int (fst entry) \<le> k)"

text \<open>The limit that an optional \<^verbatim>\<open>maxDepth\<close> stands for in \<^verbatim>\<open>flattenHierarchy\<close>.\<close>

definition flattenLimit :: "int option \<Rightarrow> int" where
  "flattenLimit maxDepthArg = (case maxDepthArg of None \<Rightarrow> 20 | Some k \<Rightarrow> k)"

text \<open>A record of the flattening stands for a node at a depth: the depth, the node's own
  fields, and no children.\<close>

definition recordOf :: "FlatElement \<Rightarrow> nat \<times> UiElement \<Rightarrow> bool" where
  "recordOf r entry =
     (flat_depth r = fst entry \<and>
      children (flat_element r) = [] \<and>
      resource_id (flat_element r) = resource_id (snd entry) \<and>
      text_attr (flat_element r) = text_attr (snd entry) \<and>
      content_desc (flat_element r) = content_desc (snd entry) \<and>
      class_attr (flat_element r) = class_attr (snd entry) \<and>
      package (flat_element r) = package (snd entry) \<and>
      bounds (flat_element r) = bounds (snd entry) \<and>
      clickable (flat_element r) = clickable (snd entry) \<and>
      enabled (flat_element r) = enabled (snd entry) \<and>
      scrollable (flat_element r) = scrollable (snd entry))"

text \<open>A forest for examples: \<open>n\<close> empty nodes, each the only child of the one before.\<close>

fun nest :: "nat \<Rightarrow> UiElement list" where
  "nest 0 = []"
| "nest (Suc n) =
     [UiElement [] [] [] [] []
        \<lparr>bounds_x = Finite 0, bounds_y = Finite 0,
         bounds_width = Finite 0, bounds_height = Finite 0\<rparr>
        False False False (nest n)]"

text \<open>
  The words of the specification for attributes: a tag carries attributes, each a name
  with a string value, and its attribute text writes them as \<open>name="value"\<close> with a space
  between two of them. An attribute is absent from a tag that carries none of its name, and
  its value is the one written with its name (\<open>map_of\<close> on the list of attributes).
\<close>

definition attrText :: "(string \<times> string) list \<Rightarrow> string" where
  "attrText attributes =
     join '' '' (map (\<lambda>(name, v). name @ [CHR ''='', dquote] @ v @ [dquote]) attributes)"

text \<open>
  What the lookup reads: the text \<open>name="\<close> that the pattern of \<^verbatim>\<open>extractAttr\<close> starts with, and
  a place \<open>pre\<close> in an attribute text where that text stands for the first time, followed
  by \<open>v\<close> and a double quote.
\<close>

definition attrPattern :: "string \<Rightarrow> string" where
  "attrPattern name = name @ [CHR ''='', dquote]"

definition firstOccurrence :: "string \<Rightarrow> string \<Rightarrow> string \<Rightarrow> string \<Rightarrow> string \<Rightarrow> bool" where
  "firstOccurrence name attrs pre v post =
     (attrs = pre @ attrPattern name @ v @ [dquote] @ post \<and>
      dquote \<notin> set v \<and>
      \<not> includesStr (pre @ butlast (attrPattern name)) (attrPattern name))"

text \<open>All the matches of \<^verbatim>\<open>tagRegex\<close> in an input, in the order the loop sees them.\<close>

function tagMatches :: "string \<Rightarrow> Token list" where
  "tagMatches xml =
     (case execTag xml of
        None \<Rightarrow> []
      | Some (tok, rest) \<Rightarrow> tok # tagMatches rest)"
  by pat_completeness auto
termination
  by (relation "measure length") (auto dest: execTag_shorter)

text \<open>The nodes of a forest without their children, and the nodes that the tags among
  some matches build.\<close>

definition shallowNodes :: "UiElement list \<Rightarrow> UiElement set" where
  "shallowNodes forest = (\<lambda>e. setChildren e []) ` set (preorder forest)"

definition builtFrom :: "Token list \<Rightarrow> UiElement set" where
  "builtFrom toks =
     {buildElement attrs | attrs isSelfClosing. OpenTag attrs isSelfClosing \<in> set toks}"

subsection \<open>The read-only operations over a store\<close>

text \<open>
  In the source a forest is a graph of objects and arrays, \<^verbatim>\<open>findElements\<close> returns
  references into it, and \<^verbatim>\<open>flattenHierarchy\<close> builds new objects. To state what the three
  read-only operations leave unchanged, they are modelled a second time over an explicit
  store: every object, array and rectangle lives in a cell at an address, a new cell gets
  the next free address, and \<^verbatim>\<open>push\<close> rewrites the cell of its array. A walk takes fuel,
  since a store may hold a cyclic graph; \<open>None\<close> stands for a walk that runs out of fuel or
  reads a cell that is not of the kind the code expects.
\<close>

type_synonym addr = nat

text \<open>A \<^verbatim>\<open>UiElement\<close> object: \<^verbatim>\<open>bounds\<close> and \<^verbatim>\<open>children\<close> are references; a record of the
  flattening has the property \<^verbatim>\<open>depth\<close> as well.\<close>

datatype HObject = HObject
  (h_resource_id: string)
  (h_text: string)
  (h_content_desc: string)
  (h_class: string)
  (h_package: string)
  (h_bounds: addr)
  (h_clickable: bool)
  (h_enabled: bool)
  (h_scrollable: bool)
  (h_children: addr)
  (h_depth: "nat option")

datatype Cell =
    ObjectCell HObject
  | RefArray "addr list"
  | StrArray "string list"
  | BoundsCell Bounds

record Heap =
  cells :: "addr \<Rightarrow> Cell option"
  nextAddr :: addr

text \<open>A new object or array literal.\<close>

definition alloc :: "Cell \<Rightarrow> Heap \<Rightarrow> addr \<times> Heap" where
  "alloc c h = (nextAddr h, h\<lparr>cells := (cells h)(nextAddr h \<mapsto> c), nextAddr := Suc (nextAddr h)\<rparr>)"

definition getObject :: "Heap \<Rightarrow> addr \<Rightarrow> HObject option" where
  "getObject h a = (case cells h a of Some (ObjectCell obj) \<Rightarrow> Some obj | _ \<Rightarrow> None)"

definition getRefs :: "Heap \<Rightarrow> addr \<Rightarrow> addr list option" where
  "getRefs h a = (case cells h a of Some (RefArray refs) \<Rightarrow> Some refs | _ \<Rightarrow> None)"

definition getStrs :: "Heap \<Rightarrow> addr \<Rightarrow> string list option" where
  "getStrs h a = (case cells h a of Some (StrArray strs) \<Rightarrow> Some strs | _ \<Rightarrow> None)"

definition getBounds :: "Heap \<Rightarrow> addr \<Rightarrow> Bounds option" where
  "getBounds h a = (case cells h a of Some (BoundsCell b) \<Rightarrow> Some b | _ \<Rightarrow> None)"

text \<open>\<^verbatim>\<open>array.push(value)\<close> for an array of references and for an array of strings.\<close>

definition pushRef :: "addr \<Rightarrow> addr \<Rightarrow> Heap \<Rightarrow> Heap option" where
  "pushRef arr v h =
     (case getRefs h arr of
        None \<Rightarrow> None
      | Some refs \<Rightarrow> Some (h\<lparr>cells := (cells h)(arr \<mapsto> RefArray (refs @ [v]))\<rparr>))"

definition pushStr :: "addr \<Rightarrow> string \<Rightarrow> Heap \<Rightarrow> Heap option" where
  "pushStr arr v h =
     (case getStrs h arr of
        None \<Rightarrow> None
      | Some strs \<Rightarrow> Some (h\<lparr>cells := (cells h)(arr \<mapsto> StrArray (strs @ [v]))\<rparr>))"

text \<open>\<^verbatim>\<open>if (cond) array.push(value)\<close>.\<close>

definition pushStrIf :: "bool \<Rightarrow> addr \<Rightarrow> string \<Rightarrow> Heap \<Rightarrow> Heap option" where
  "pushStrIf cond arr v h = (if cond then pushStr arr v h else Some h)"

text \<open>The three tests of \<^verbatim>\<open>findElements\<close> on an object of the store.\<close>

definition selectorMatchH :: "Selector \<Rightarrow> HObject \<Rightarrow> bool" where
  "selectorMatchH selector el =
     (let match = True;
          match = (case selector_resource_id selector of
                     None \<Rightarrow> match
                   | Some v \<Rightarrow> match \<and> (h_resource_id el = v \<or> idPart (h_resource_id el) = v));
          match = (case selector_text selector of
                     None \<Rightarrow> match
                   | Some v \<Rightarrow> match \<and> h_text el = v);
          match = (case selector_content_desc selector of
                     None \<Rightarrow> match
                   | Some v \<Rightarrow> match \<and> h_content_desc el = v)
      in match)"

text \<open>
  \<^verbatim>\<open>walk\<close> of \<^verbatim>\<open>findElements\<close>. The \<^verbatim>\<open>for\<close> loop reads the array again at every step, as
  the array iterator does; \<open>i\<close> is the index of the iterator.
\<close>

fun findWalkH :: "nat \<Rightarrow> Selector \<Rightarrow> addr \<Rightarrow> addr \<Rightarrow> nat \<Rightarrow> Heap \<Rightarrow> Heap option" where
  "findWalkH 0 selector results elements i h = None"
| "findWalkH (Suc fuel) selector results elements i h =
     do {
       refs \<leftarrow> getRefs h elements;
       if i < length refs
       then do {
         el \<leftarrow> getObject h (refs ! i);
         h1 \<leftarrow> (if selectorMatchH selector el then pushRef results (refs ! i) h else Some h);
         el1 \<leftarrow> getObject h1 (refs ! i);
         h2 \<leftarrow> findWalkH fuel selector results (h_children el1) 0 h1;
         findWalkH fuel selector results elements (i + 1) h2
       }
       else Some h
     }"

definition findElementsH :: "nat \<Rightarrow> addr \<Rightarrow> Selector \<Rightarrow> Heap \<Rightarrow> (addr \<times> Heap) option" where
  "findElementsH fuel roots selector h =
     (let (results, h0) = alloc (RefArray []) h
      in do {
        h' \<leftarrow> findWalkH fuel selector results roots 0 h0;
        Some (results, h')
      })"

text \<open>The body of the loop of \<^verbatim>\<open>formatCompactTree\<close> for the object at \<open>ref\<close>: the array
  \<^verbatim>\<open>parts\<close> is built and joined, and the line is pushed to \<^verbatim>\<open>lines\<close>.\<close>

definition compactVisitH :: "addr \<Rightarrow> nat \<Rightarrow> addr \<Rightarrow> Heap \<Rightarrow> Heap option" where
  "compactVisitH lines depth ref h =
     do {
       el \<leftarrow> getObject h ref;
       let indent = concat (replicate depth ''  '');
       let (parts, h) = alloc (StrArray [shortenClassName (h_class el)]) h;
       h \<leftarrow> pushStrIf (h_text el \<noteq> []) parts ([dquote] @ h_text el @ [dquote]) h;
       b \<leftarrow> getBounds h (h_bounds el);
       h \<leftarrow> pushStr parts (''['' @ showNumber (bounds_x b) @ '','' @ showNumber (bounds_y b) @ '' '' @
                            showNumber (bounds_width b) @ ''x'' @ showNumber (bounds_height b) @ '']'') h;
       h \<leftarrow> pushStrIf (h_resource_id el \<noteq> []) parts
              (''id:'' @ (if includesStr (h_resource_id el) ''/''
                          then last (split CHR ''/'' (h_resource_id el))
                          else h_resource_id el)) h;
       h \<leftarrow> pushStrIf (h_content_desc el \<noteq> []) parts
              (''desc:'' @ [dquote] @ h_content_desc el @ [dquote]) h;
       h \<leftarrow> pushStrIf (h_clickable el) parts ''[clickable]'' h;
       h \<leftarrow> pushStrIf (h_scrollable el) parts ''[scrollable]'' h;
       strs \<leftarrow> getStrs h parts;
       pushStr lines (indent @ join '' '' strs) h
     }"

text \<open>\<^verbatim>\<open>walk\<close> of \<^verbatim>\<open>formatCompactTree\<close>: the guard, and the loop by the index of its
  iterator.\<close>

fun compactWalkH :: "nat \<Rightarrow> int \<Rightarrow> addr \<Rightarrow> addr \<Rightarrow> nat \<Rightarrow> Heap \<Rightarrow> Heap option"
  and compactLoopH :: "nat \<Rightarrow> int \<Rightarrow> addr \<Rightarrow> addr \<Rightarrow> nat \<Rightarrow> nat \<Rightarrow> Heap \<Rightarrow> Heap option"
where
  "compactWalkH 0 maxDepth lines elements depth h = None"
| "compactWalkH (Suc fuel) maxDepth lines elements depth h =
     (if int depth > maxDepth then Some h
      else compactLoopH fuel maxDepth lines elements depth 0 h)"
| "compactLoopH 0 maxDepth lines elements depth i h = None"
| "compactLoopH (Suc fuel) maxDepth lines elements depth i h =
     do {
       refs \<leftarrow> getRefs h elements;
       if i < length refs
       then do {
         h1 \<leftarrow> compactVisitH lines depth (refs ! i) h;
         el1 \<leftarrow> getObject h1 (refs ! i);
         h2 \<leftarrow> compactWalkH fuel maxDepth lines (h_children el1) (depth + 1) h1;
         compactLoopH fuel maxDepth lines elements depth (i + 1) h2
       }
       else Some h
     }"

definition formatCompactTreeH :: "nat \<Rightarrow> addr \<Rightarrow> int option \<Rightarrow> Heap \<Rightarrow> (string \<times> Heap) option" where
  "formatCompactTreeH fuel roots maxDepthArg h =
     (let maxDepth = (case maxDepthArg of None \<Rightarrow> 15 | Some k \<Rightarrow> k);
          (lines, h0) = alloc (StrArray []) h
      in do {
        h' \<leftarrow> compactWalkH fuel maxDepth lines roots 0 h0;
        strs \<leftarrow> getStrs h' lines;
        Some (join [CHR 0x0A] strs, h')
      })"

text \<open>\<^verbatim>\<open>result.push({ ...el, depth, children: [] })\<close>: a new empty array, a new object with
  the properties of \<^verbatim>\<open>el\<close> copied (its \<^verbatim>\<open>bounds\<close> reference too), and the push.\<close>

definition flattenVisitH :: "addr \<Rightarrow> nat \<Rightarrow> addr \<Rightarrow> Heap \<Rightarrow> Heap option" where
  "flattenVisitH result depth ref h =
     do {
       el \<leftarrow> getObject h ref;
       let (emptyChildren, h) = alloc (RefArray []) h;
       let (record, h) =
             alloc (ObjectCell (HObject (h_resource_id el) (h_text el) (h_content_desc el)
                      (h_class el) (h_package el) (h_bounds el) (h_clickable el) (h_enabled el)
                      (h_scrollable el) emptyChildren (Some depth))) h;
       pushRef result record h
     }"

text \<open>\<^verbatim>\<open>walk\<close> of \<^verbatim>\<open>flattenHierarchy\<close>.\<close>

fun flattenWalkH :: "nat \<Rightarrow> int \<Rightarrow> addr \<Rightarrow> addr \<Rightarrow> nat \<Rightarrow> Heap \<Rightarrow> Heap option"
  and flattenLoopH :: "nat \<Rightarrow> int \<Rightarrow> addr \<Rightarrow> addr \<Rightarrow> nat \<Rightarrow> nat \<Rightarrow> Heap \<Rightarrow> Heap option"
where
  "flattenWalkH 0 maxDepth result elements depth h = None"
| "flattenWalkH (Suc fuel) maxDepth result elements depth h =
     (if int depth > maxDepth then Some h
      else flattenLoopH fuel maxDepth result elements depth 0 h)"
| "flattenLoopH 0 maxDepth result elements depth i h = None"
| "flattenLoopH (Suc fuel) maxDepth result elements depth i h =
     do {
       refs \<leftarrow> getRefs h elements;
       if i < length refs
       then do {
         h1 \<leftarrow> flattenVisitH result depth (refs ! i) h;
         el1 \<leftarrow> getObject h1 (refs ! i);
         h2 \<leftarrow> flattenWalkH fuel maxDepth result (h_children el1) (depth + 1) h1;
         flattenLoopH fuel maxDepth result elements depth (i + 1) h2
       }
       else Some h
     }"

definition flattenHierarchyH :: "nat \<Rightarrow> addr \<Rightarrow> int option \<Rightarrow> Heap \<Rightarrow> (addr \<times> Heap) option" where
  "flattenHierarchyH fuel roots maxDepthArg h =
     (let maxDepth = (case maxDepthArg of None \<Rightarrow> 20 | Some k \<Rightarrow> k);
          (result, h0) = alloc (RefArray []) h
      in do {
        h' \<leftarrow> flattenWalkH fuel maxDepth result roots 0 h0;
        Some (result, h')
      })"

text \<open>
  A forest in the store: the array at an address holds references to objects that have
  the fields of the nodes, rectangle and children behind their references included, and
  every address on the way, the array's own too, is below a bound.
\<close>

lemma size_children_odd:
  "Suc (2 * size_list size (children el)) < 2 * size el"
  using size_children[of el] by arith

function reprNode :: "nat \<Rightarrow> Heap \<Rightarrow> addr \<Rightarrow> UiElement \<Rightarrow> bool"
  and reprNodes :: "nat \<Rightarrow> Heap \<Rightarrow> addr list \<Rightarrow> UiElement list \<Rightarrow> bool"
where
  "reprNode n h a el =
     (a < n \<and>
      (case getObject h a of
         None \<Rightarrow> False
       | Some obj \<Rightarrow>
           h_resource_id obj = resource_id el \<and> h_text obj = text_attr el \<and>
           h_content_desc obj = content_desc el \<and> h_class obj = class_attr el \<and>
           h_package obj = package el \<and>
           h_bounds obj < n \<and> getBounds h (h_bounds obj) = Some (bounds el) \<and>
           h_clickable obj = clickable el \<and> h_enabled obj = enabled el \<and>
           h_scrollable obj = scrollable el \<and>
           h_children obj < n \<and>
           (case getRefs h (h_children obj) of
              None \<Rightarrow> False
            | Some refs \<Rightarrow> reprNodes n h refs (children el))))"
| "reprNodes n h [] [] = True"
| "reprNodes n h (a # as) (el # els) = (reprNode n h a el \<and> reprNodes n h as els)"
| "reprNodes n h [] (el # els) = False"
| "reprNodes n h (a # as) [] = False"
  by pat_completeness auto
termination
  by (relation "measure (\<lambda>x. case x of
                   Inl (n, h, a, el) \<Rightarrow> 2 * size el
                 | Inr (n, h, as, els) \<Rightarrow> 2 * size_list size els + 1)")
     (auto simp: size_children_odd)

definition reprForest :: "Heap \<Rightarrow> addr \<Rightarrow> UiElement list \<Rightarrow> bool" where
  "reprForest h roots forest =
     (roots < nextAddr h \<and>
      (case getRefs h roots of
         None \<Rightarrow> False
       | Some refs \<Rightarrow> reprNodes (nextAddr h) h refs forest))"

text \<open>A step from one store to another that keeps every cell that was allocated before it,
  but for the cells at the addresses in a set.\<close>

definition modifies :: "addr set \<Rightarrow> Heap \<Rightarrow> Heap \<Rightarrow> bool" where
  "modifies S h h' =
     (nextAddr h \<le> nextAddr h' \<and>
      (\<forall>a. a < nextAddr h \<and> a \<notin> S \<longrightarrow> cells h' a = cells h a))"

text \<open>A record that \<^verbatim>\<open>flattenHierarchy\<close> made: the object and its \<^verbatim>\<open>children\<close> array were
  both allocated after the result array, the array is empty, and the depth is set.\<close>

definition freshRecord :: "Heap \<Rightarrow> addr \<Rightarrow> addr \<Rightarrow> bool" where
  "freshRecord h result r =
     (result < r \<and> r < nextAddr h \<and>
      (case getObject h r of
         None \<Rightarrow> False
       | Some obj \<Rightarrow>
           result < h_children obj \<and> h_children obj < nextAddr h \<and>
           getRefs h (h_children obj) = Some [] \<and> h_depth obj \<noteq> None))"

definition freshRecords :: "Heap \<Rightarrow> addr \<Rightarrow> bool" where
  "freshRecords h result =
     (case getRefs h result of
        None \<Rightarrow> False
      | Some refs \<Rightarrow> list_all (freshRecord h result) refs)"

text \<open>A store for examples: a node \<open>p\<close> with one child \<open>c\<close>; the roots array is at address 6.\<close>

definition exampleHeap :: Heap where
  "exampleHeap =
     \<lparr>cells = Map.empty
        (0 \<mapsto> BoundsCell \<lparr>bounds_x = Finite 0, bounds_y = Finite 0,
                          bounds_width = Finite 10, bounds_height = Finite 10\<rparr>,
         1 \<mapsto> RefArray [],
         2 \<mapsto> ObjectCell (HObject ''c'' [] [] [] [] 0 True False False 1 None),
         3 \<mapsto> RefArray [2],
         4 \<mapsto> BoundsCell \<lparr>bounds_x = Finite 0, bounds_y = Finite 0,
                          bounds_width = Finite 20, bounds_height = Finite 20\<rparr>,
         5 \<mapsto> ObjectCell (HObject ''p'' [] [] [] [] 4 False False False 3 None),
         6 \<mapsto> RefArray [5]),
      nextAddr = 7\<rparr>"

definition exampleForest :: "UiElement list" where
  "exampleForest =
     [UiElement ''p'' [] [] [] []
        \<lparr>bounds_x = Finite 0, bounds_y = Finite 0,
         bounds_width = Finite 20, bounds_height = Finite 20\<rparr> False False False
        [UiElement ''c'' [] [] [] []
           \<lparr>bounds_x = Finite 0, bounds_y = Finite 0,
            bounds_width = Finite 10, bounds_height = Finite 10\<rparr> True False False []]]"

section \<open>Properties\<close>

subsection \<open>Numbers\<close>

lemma pow2_powi: "pow2 e = 2 powi e"
  by (simp add: pow2_def power_int_def inverse_eq_divide power_one_over)

lemma pow2_add: "pow2 (a + b) = pow2 a * pow2 b"
  by (simp add: pow2_powi power_int_add)

lemma pow2_mono: "a \<le> b \<Longrightarrow> pow2 a \<le> pow2 b"
  by (simp add: pow2_powi power_int_increasing)

lemma pow2_less: "pow2 a < pow2 b \<Longrightarrow> a < b"
  using pow2_mono [of b a] by (cases "a < b") auto

declare bitLength.simps [simp del]

lemma bitLength_pos: "0 < n \<Longrightarrow> bitLength n = Suc (bitLength (n div 2))"
  by (subst bitLength.simps) simp

text \<open>A positive integer of bit length \<open>l\<close> lies between \<open>2\<^sup>l\<^sup>-\<^sup>1\<close> and \<open>2\<^sup>l\<close>.\<close>

lemma bitLength_bounds: "0 < n \<Longrightarrow> 2 ^ (bitLength n - 1) \<le> n \<and> n < 2 ^ bitLength n"
proof (induction n rule: bitLength.induct)
  case (1 n)
  have bl: "bitLength n = Suc (bitLength (n div 2))"
    using "1.prems" by (rule bitLength_pos)
  show ?case
  proof (cases "n = 1")
    case True
    have "bitLength (0::int) = 0" by (subst bitLength.simps) simp
    then show ?thesis using True bl by simp
  next
    case False
    then have pos: "0 < n div 2" using "1.prems" by simp
    have ih: "2 ^ (bitLength (n div 2) - 1) \<le> n div 2 \<and> n div 2 < 2 ^ bitLength (n div 2)"
      using "1.IH" "1.prems" pos by simp
    have bl2: "bitLength (n div 2) = Suc (bitLength (n div 2) - 1)"
      using bitLength_pos [OF pos] by simp
    have lo: "(2::int) ^ bitLength (n div 2) \<le> 2 * (n div 2)"
      using ih by (subst bl2) simp
    have hi: "n < 2 * (n div 2) + 2" by simp
    have le: "2 * (n div 2) \<le> n" by simp
    show ?thesis using lo hi le ih by (simp add: bl)
  qed
qed

lemma roundHalfEven_int: "roundHalfEven (of_int m) = m"
  by (simp add: roundHalfEven_def)

text \<open>The binary exponent is not too large: \<open>2\<^sup>e \<le> \<bar>v\<bar>\<close>.\<close>

lemma binaryExponent_le:
  assumes "v \<noteq> 0"
  shows "pow2 (binaryExponent v) \<le> \<bar>v\<bar>"
proof -
  obtain a b where q: "quotient_of \<bar>v\<bar> = (a, b)" by (cases "quotient_of \<bar>v\<bar>")
  have b: "0 < b" using q by (rule quotient_of_denom_pos)
  have v: "\<bar>v\<bar> = of_int a / of_int b" using q by (rule quotient_of_div)
  have a: "0 < a"
  proof -
    have "0 < \<bar>v\<bar>" using assms by simp
    then have "0 < (of_int a :: rat) / of_int b" using v by simp
    then show ?thesis using b by (simp add: zero_less_divide_iff)
  qed
  let ?d = "int (bitLength a) - int (bitLength b)"
  have la: "(2::int) ^ (bitLength a - 1) \<le> a" using bitLength_bounds [OF a] by simp
  have lb: "b < 2 ^ bitLength b" using bitLength_bounds [OF b] by simp
  have pa: "0 < bitLength a" using bitLength_pos [OF a] by simp
  have "pow2 (?d - 1) \<le> \<bar>v\<bar>"
  proof -
    have d: "?d - 1 = int (bitLength a - 1) + (- int (bitLength b))" using pa by simp
    have "pow2 (?d - 1) = 2 ^ (bitLength a - 1) / 2 ^ bitLength b"
      unfolding d pow2_add by (simp add: pow2_def)
    also have "\<dots> \<le> of_int a / 2 ^ bitLength b"
    proof -
      have "(of_int (2 ^ (bitLength a - 1)) :: rat) \<le> of_int a"
        using la by (simp only: of_int_le_iff)
      then show ?thesis by (simp add: divide_right_mono)
    qed
    also have "\<dots> \<le> of_int a / of_int b"
    proof -
      have "(of_int b :: rat) \<le> of_int (2 ^ bitLength b)" using lb by (simp only: of_int_le_iff)
      then have "(of_int b :: rat) \<le> 2 ^ bitLength b" by simp
      moreover have "(0::rat) < of_int b" using b by simp
      moreover have "(0::rat) \<le> of_int a" using a by simp
      ultimately show ?thesis by (simp add: divide_left_mono)
    qed
    finally show ?thesis using v by simp
  qed
  then show ?thesis
    by (simp add: binaryExponent_def q Let_def)
qed

text \<open>A multiple of \<open>2\<^sup>-\<^sup>j\<close> whose significand has at most 53 bits is a binary64 value: rounding
  leaves it as it is.\<close>

lemma toDouble_exact:
  assumes k: "\<bar>k\<bar> < 2 ^ 53" and j: "j \<le> 1074"
  shows "toDouble (of_int k / 2 ^ j) = Finite (of_int k / 2 ^ j)"
proof (cases "k = 0")
  case True
  then show ?thesis by (simp add: toDouble_def)
next
  case False
  let ?v = "(of_int k :: rat) / 2 ^ j"
  have nz: "?v \<noteq> 0" using False by simp
  define u where "u = max (binaryExponent ?v - 52) (- 1074)"
  have abs: "\<bar>?v\<bar> = of_int \<bar>k\<bar> / 2 ^ j" by simp
  have "(of_int \<bar>k\<bar> :: rat) < of_int (2 ^ 53)" using k by (simp only: of_int_less_iff)
  then have klt: "(of_int \<bar>k\<bar> :: rat) < 2 ^ 53" by simp
  have lt: "\<bar>?v\<bar> < pow2 (53 - int j)"
  proof -
    have "pow2 (53 - int j) = pow2 (int 53 + (- int j))" by simp
    also have "\<dots> = 2 ^ 53 / 2 ^ j" unfolding pow2_add by (simp add: pow2_def)
    finally show ?thesis using klt unfolding abs by (simp add: divide_strict_right_mono)
  qed
  have "pow2 (binaryExponent ?v) < pow2 (53 - int j)"
    using binaryExponent_le [OF nz] lt by (rule le_less_trans)
  then have "binaryExponent ?v < 53 - int j" by (rule pow2_less)
  then have ule: "u \<le> - int j" using j by (simp add: u_def)
  define t where "t = nat (- int j - u)"
  have u: "u = - int j + (- int t)" using ule by (simp add: t_def)
  have pu: "pow2 u = 1 / (2 ^ j * 2 ^ t)"
    unfolding u pow2_add by (simp add: pow2_def)
  have scaled: "?v / pow2 u = of_int (k * 2 ^ t)" by (simp add: pu)
  have r: "of_int (roundHalfEven (?v / pow2 u)) * pow2 u = ?v"
    unfolding scaled roundHalfEven_int by (simp add: pu)
  have small: "\<bar>?v\<bar> < pow2 1024"
  proof -
    have "\<bar>?v\<bar> \<le> of_int \<bar>k\<bar>"
      unfolding abs by (simp add: divide_le_eq_1 field_simps mult_le_cancel_left1)
    also have "\<dots> < 2 ^ 53" by (rule klt)
    also have "\<dots> \<le> pow2 1024" by (simp add: pow2_def)
    finally show ?thesis .
  qed
  have gen: "\<And>w p :: rat. \<bar>w\<bar> < p \<Longrightarrow> \<not> p \<le> w \<and> \<not> w \<le> - p" by linarith
  have "\<not> pow2 1024 \<le> ?v" "\<not> ?v \<le> - pow2 1024"
    using gen [OF small] by blast+
  then show ?thesis
    using nz r by (simp add: toDouble_def Let_def u_def [symmetric] del: of_int_mult of_int_power)
qed

text \<open>The binary exponent is not too small either, so it is the one exponent between whose
  powers the value lies.\<close>

lemma binaryExponent_gt:
  assumes "v \<noteq> 0"
  shows "\<bar>v\<bar> < pow2 (binaryExponent v + 1)"
proof -
  obtain a b where q: "quotient_of \<bar>v\<bar> = (a, b)" by (cases "quotient_of \<bar>v\<bar>")
  have b: "0 < b" using q by (rule quotient_of_denom_pos)
  have v: "\<bar>v\<bar> = of_int a / of_int b" using q by (rule quotient_of_div)
  have a: "0 < a"
  proof -
    have "0 < \<bar>v\<bar>" using assms by simp
    then have "0 < (of_int a :: rat) / of_int b" using v by simp
    then show ?thesis using b by (simp add: zero_less_divide_iff)
  qed
  let ?d = "int (bitLength a) - int (bitLength b)"
  define m where "m = bitLength b - 1"
  have la: "a < 2 ^ bitLength a" using bitLength_bounds [OF a] by simp
  have lb: "(2::int) ^ m \<le> b" using bitLength_bounds [OF b] by (simp add: m_def)
  have pb: "bitLength b = Suc m" using bitLength_pos [OF b] by (simp add: m_def)
  have up: "\<bar>v\<bar> < pow2 (?d + 1)"
  proof -
    have d: "?d + 1 = int (bitLength a) + (- int m)" using pb by simp
    have "(of_int a :: rat) < of_int (2 ^ bitLength a)" using la by (simp only: of_int_less_iff)
    then have "(of_int a :: rat) < 2 ^ bitLength a" by simp
    moreover have "(0::rat) < of_int b" using b by simp
    ultimately have "(of_int a :: rat) / of_int b < 2 ^ bitLength a / of_int b"
      by (simp add: divide_strict_right_mono)
    also have "\<dots> \<le> 2 ^ bitLength a / 2 ^ m"
    proof -
      have "(of_int (2 ^ m) :: rat) \<le> of_int b"
        using lb by (simp only: of_int_le_iff)
      then have "(2 :: rat) ^ m \<le> of_int b" by simp
      moreover have "(0::rat) < of_int b" using b by simp
      ultimately show ?thesis by (intro divide_left_mono) simp_all
    qed
    also have "\<dots> = pow2 (?d + 1)"
      unfolding d pow2_add by (simp add: pow2_def)
    finally show ?thesis using v by simp
  qed
  show ?thesis
  proof (cases "pow2 ?d \<le> \<bar>v\<bar>")
    case True
    then show ?thesis using up by (simp add: binaryExponent_def q Let_def)
  next
    case False
    then show ?thesis by (simp add: binaryExponent_def q Let_def)
  qed
qed

lemma binaryExponent_unique:
  assumes "pow2 e \<le> \<bar>v\<bar>" "\<bar>v\<bar> < pow2 (e + 1)"
  shows "binaryExponent v = e"
proof -
  have "0 < pow2 e" by (simp add: pow2_powi)
  then have nz: "v \<noteq> 0" using assms(1) by auto
  have "pow2 (binaryExponent v) < pow2 (e + 1)"
    using binaryExponent_le [OF nz] assms(2) by (rule le_less_trans)
  then have "binaryExponent v < e + 1" by (rule pow2_less)
  moreover have "pow2 e < pow2 (binaryExponent v + 1)"
    using assms(1) binaryExponent_gt [OF nz] by (rule le_less_trans)
  then have "e < binaryExponent v + 1" by (rule pow2_less)
  ultimately show ?thesis by simp
qed

lemma floor_numeral_div: "\<lfloor>(numeral a :: rat) / numeral b\<rfloor> = numeral a div numeral b"
  using floor_divide_of_int_eq [of "numeral a" "numeral b", where ?'a = rat] by simp

lemma floor_one_div: "\<lfloor>(1 :: rat) / numeral b\<rfloor> = 1 div numeral b"
  using floor_divide_of_int_eq [of 1 "numeral b", where ?'a = rat] by simp

lemma roundHalfEven_bounds: "\<lfloor>q\<rfloor> \<le> roundHalfEven q \<and> roundHalfEven q \<le> \<lfloor>q\<rfloor> + 1"
  by (simp add: roundHalfEven_def Let_def)

text \<open>In the normal range the result is the multiple of \<open>2\<^sup>e\<^sup>-\<^sup>5\<^sup>2\<close> nearest to the value.\<close>

lemma toDouble_round:
  assumes lo: "pow2 e \<le> \<bar>v\<bar>" and hi: "\<bar>v\<bar> < pow2 (e + 1)"
    and e: "- 1022 \<le> e" "e \<le> 1022"
  shows "toDouble v = Finite (of_int (roundHalfEven (v / pow2 (e - 52))) * pow2 (e - 52))"
proof -
  have pe: "0 < pow2 e" by (simp add: pow2_powi)
  then have nz: "v \<noteq> 0" using lo by auto
  have be: "binaryExponent v = e" using lo hi by (rule binaryExponent_unique)
  have u: "max (binaryExponent v - 52) (- 1074) = e - 52" using e by (simp add: be)
  let ?p = "pow2 (e - 52)"
  let ?m = "roundHalfEven (v / ?p)"
  have pp: "0 < ?p" by (simp add: pow2_powi)
  have split: "pow2 (e + 1) = 2 ^ 53 * ?p"
  proof -
    have "e + 1 = int 53 + (e - 52)" by simp
    then have "pow2 (e + 1) = pow2 (int 53) * ?p" by (simp only: pow2_add)
    then show ?thesis by (simp add: pow2_def)
  qed
  have q: "\<bar>v / ?p\<bar> < 2 ^ 53"
  proof -
    have "\<bar>v / ?p\<bar> = \<bar>v\<bar> / ?p" using pp by simp
    also have "\<dots> < 2 ^ 53" using hi pp unfolding split by (simp add: pos_divide_less_eq)
    finally show ?thesis .
  qed
  have m: "\<bar>?m\<bar> \<le> 2 ^ 53"
  proof -
    have "v / ?p < 2 ^ 53" "- (2 ^ 53) < v / ?p" using q by linarith+
    then have "\<lfloor>v / ?p\<rfloor> < 2 ^ 53" "- (2 ^ 53) \<le> \<lfloor>v / ?p\<rfloor>"
      by (simp_all add: floor_less_iff le_floor_iff)
    then show ?thesis using roundHalfEven_bounds [of "v / ?p"] by linarith
  qed
  have r: "\<bar>of_int ?m * ?p\<bar> < pow2 1024"
  proof -
    have "(of_int \<bar>?m\<bar> :: rat) \<le> of_int (2 ^ 53)" using m by (simp only: of_int_le_iff)
    then have "(of_int \<bar>?m\<bar> :: rat) \<le> 2 ^ 53" by simp
    then have "(of_int \<bar>?m\<bar> :: rat) * ?p \<le> 2 ^ 53 * ?p"
      using pp by (simp add: mult_right_mono)
    moreover have "\<bar>of_int ?m * ?p\<bar> = of_int \<bar>?m\<bar> * ?p"
      using pp by (simp add: abs_mult)
    ultimately have "\<bar>of_int ?m * ?p\<bar> \<le> pow2 (e + 1)" by (simp only: split)
    also have "\<dots> \<le> pow2 1023" using e by (intro pow2_mono) simp
    also have "\<dots> < pow2 1024" by (simp add: pow2_def)
    finally show ?thesis .
  qed
  have gen: "\<And>w p :: rat. \<bar>w\<bar> < p \<Longrightarrow> \<not> p \<le> w \<and> \<not> w \<le> - p" by linarith
  have "\<not> pow2 1024 \<le> of_int ?m * ?p" "\<not> of_int ?m * ?p \<le> - pow2 1024"
    using gen [OF r] by blast+
  then show ?thesis
    using nz by (simp add: toDouble_def Let_def u)
qed

text \<open>A value of \<open>2\<^sup>1\<^sup>0\<^sup>2\<^sup>4\<close> or more has no finite binary64 value.\<close>

lemma toDouble_overflow:
  assumes "pow2 1024 \<le> v"
  shows "toDouble v = PosInfinity"
proof -
  have p: "0 < pow2 1024" by (simp add: pow2_powi)
  then have pos: "0 < v" using assms by simp
  then have nz: "v \<noteq> 0" by simp
  let ?e = "binaryExponent v"
  have "pow2 1024 < pow2 (?e + 1)"
    using assms binaryExponent_gt [OF nz] pos by simp
  then have e: "1024 \<le> ?e" using pow2_less [of 1024 "?e + 1"] by simp
  then have u: "max (?e - 52) (- 1074) = ?e - 52" by simp
  let ?p = "pow2 (?e - 52)"
  have pp: "0 < ?p" by (simp add: pow2_powi)
  have split: "pow2 ?e = 2 ^ 52 * ?p"
  proof -
    have "?e = int 52 + (?e - 52)" by simp
    then have "pow2 ?e = pow2 (int 52) * ?p" by (metis pow2_add)
    then show ?thesis by (simp add: pow2_def)
  qed
  have "pow2 ?e \<le> v" using binaryExponent_le [OF nz] pos by simp
  then have "2 ^ 52 \<le> v / ?p" using pp unfolding split by (simp add: pos_le_divide_eq)
  then have "2 ^ 52 \<le> \<lfloor>v / ?p\<rfloor>" by (simp add: le_floor_iff)
  then have "2 ^ 52 \<le> roundHalfEven (v / ?p)"
    using roundHalfEven_bounds [of "v / ?p"] by linarith
  then have "(of_int (2 ^ 52) :: rat) \<le> of_int (roundHalfEven (v / ?p))"
    by (simp only: of_int_le_iff)
  then have "(2 ^ 52 :: rat) \<le> of_int (roundHalfEven (v / ?p))" by simp
  then have "2 ^ 52 * ?p \<le> of_int (roundHalfEven (v / ?p)) * ?p"
    using pp by (simp add: mult_right_mono)
  then have "pow2 ?e \<le> of_int (roundHalfEven (v / ?p)) * ?p" by (simp only: split)
  moreover have "pow2 1024 \<le> pow2 ?e" using e by (rule pow2_mono)
  ultimately have "pow2 1024 \<le> of_int (roundHalfEven (v / ?p)) * ?p" by (rule order_trans [rotated])
  then show ?thesis using nz by (simp add: toDouble_def Let_def u)
qed

lemma toDouble_int: "\<bar>n\<bar> < 2 ^ 53 \<Longrightarrow> toDouble (of_int n) = Finite (of_int n)"
  using toDouble_exact [of n 0] by simp

lemma toDouble_half: "\<bar>k\<bar> < 2 ^ 53 \<Longrightarrow> toDouble (of_int k / 2) = Finite (of_int k / 2)"
  using toDouble_exact [of k 1] by simp

subsection \<open>Bounds codec\<close>

lemma decimal_fold: "foldl (\<lambda>acc c. 10 * acc + digitValue c) 0 ds = decimal ds"
proof -
  have "foldl (\<lambda>acc c. 10 * acc + digitValue c) 0 ds = decimalLsd (rev ds)"
    by (induction ds rule: rev_induct) simp_all
  then show ?thesis by (simp only: decimal_def)
qed

lemma parseInt_decimal: "digitRun ds \<Longrightarrow> parseInt ds = toDouble (of_int (decimal ds))"
proof -
  assume a: "digitRun ds"
  then have tw: "takeWhile isDigit ds = ds" and ne: "ds \<noteq> []"
    by (simp_all add: digitRun_def list_all_iff)
  show ?thesis
    unfolding parseInt_def Let_def tw decimal_fold using ne by simp
qed

lemma digitValue_nonneg: "isDigit c \<Longrightarrow> 0 \<le> digitValue c"
  by (auto simp: isDigit_def digitValue_def)

lemma foldl_digits_nonneg:
  "list_all isDigit ds \<Longrightarrow> 0 \<le> acc \<Longrightarrow>
   0 \<le> foldl (\<lambda>acc c. 10 * acc + digitValue c) acc ds"
  by (induction ds arbitrary: acc) (simp_all add: digitValue_nonneg)

lemma decimal_nonneg: "digitRun ds \<Longrightarrow> 0 \<le> decimal ds"
  using foldl_digits_nonneg [of ds 0] by (simp add: decimal_fold digitRun_def)

lemma takeWhile_run:
  "list_all isDigit ds \<Longrightarrow> \<not> isDigit c \<Longrightarrow> takeWhile isDigit (ds @ c # r) = ds"
  by (induction ds) simp_all

lemma dropWhile_run:
  "list_all isDigit ds \<Longrightarrow> \<not> isDigit c \<Longrightarrow> dropWhile isDigit (ds @ c # r) = c # r"
  by (induction ds) simp_all

lemma scanDigits_run:
  "digitRun ds \<Longrightarrow> \<not> isDigit c \<Longrightarrow> scanDigits (ds @ c # r) = Some (ds, c # r)"
  by (simp add: scanDigits_def digitRun_def takeWhile_run dropWhile_run)

lemma scanDigits_Some:
  "scanDigits s = Some (ds, r) \<Longrightarrow> s = ds @ r \<and> digitRun ds"
  by (auto simp: scanDigits_def digitRun_def Let_def list_all_iff
           split: if_splits dest: set_takeWhileD)

lemma expect_Some: "expect c s = Some r \<longleftrightarrow> s = c # r"
  by (cases s) auto

lemma matchBoundsHere_complete:
  assumes "digitRun a" "digitRun b" "digitRun c" "digitRun d"
  shows "matchBoundsHere (boundsText a b c d @ post) = Some (a, b, c, d)"
  using assms
  by (simp add: matchBoundsHere_def boundsText_def scanDigits_run isDigit_def)

lemma matchBoundsHere_sound:
  assumes "matchBoundsHere s = Some (a, b, c, d)"
  shows "\<exists>post. s = boundsText a b c d @ post \<and>
                digitRun a \<and> digitRun b \<and> digitRun c \<and> digitRun d"
  using assms
  by (auto simp: matchBoundsHere_def boundsText_def expect_Some
           split: Option.bind_splits dest!: scanDigits_Some)

lemma matchBounds_here: "matchBoundsHere s = Some m \<Longrightarrow> matchBounds s = Some m"
  by (cases s) simp_all

text \<open>A match the scanner reports is an occurrence of the pattern.\<close>

lemma matchBounds_occurs:
  "matchBounds s = Some (a, b, c, d) \<Longrightarrow> \<exists>pre. boundsOccurs s pre a b c d"
proof (induction s)
  case Nil
  then show ?case by (simp add: matchBoundsHere_def)
next
  case (Cons h t)
  show ?case
  proof (cases "matchBoundsHere (h # t)")
    case None
    with Cons.prems have "matchBounds t = Some (a, b, c, d)" by simp
    then obtain pre where "boundsOccurs t pre a b c d" using Cons.IH by blast
    then have "boundsOccurs (h # t) (h # pre) a b c d" by (simp add: boundsOccurs_def)
    then show ?thesis ..
  next
    case (Some m)
    with Cons.prems have "matchBoundsHere (h # t) = Some (a, b, c, d)" by simp
    from matchBoundsHere_sound[OF this] have "boundsOccurs (h # t) [] a b c d"
      by (auto simp: boundsOccurs_def)
    then show ?thesis ..
  qed
qed

text \<open>Where the pattern occurs, the scanner reports a match.\<close>

lemma occurs_matchBounds:
  "boundsOccurs s pre a b c d \<Longrightarrow> matchBounds s \<noteq> None"
proof (induction pre arbitrary: s)
  case Nil
  then obtain post where "s = boundsText a b c d @ post"
    and "digitRun a" "digitRun b" "digitRun c" "digitRun d"
    by (auto simp: boundsOccurs_def prefix_def)
  then show ?case by (simp add: matchBounds_here matchBoundsHere_complete)
next
  case (Cons p pre)
  then obtain t where s: "s = p # t" and occ: "boundsOccurs t pre a b c d"
    by (auto simp: boundsOccurs_def prefix_def)
  from Cons.IH[OF occ] show ?case by (simp add: s split: option.splits)
qed

text \<open>The leftmost occurrence is the match.\<close>

lemma matchBounds_leftmost:
  assumes "boundsOccurs s pre a b c d"
    and "\<And>pre' a' b' c' d'. boundsOccurs s pre' a' b' c' d' \<Longrightarrow> length pre \<le> length pre'"
  shows "matchBounds s = Some (a, b, c, d)"
  using assms
proof (induction pre arbitrary: s)
  case Nil
  then obtain post where "s = boundsText a b c d @ post"
    and "digitRun a" "digitRun b" "digitRun c" "digitRun d"
    by (auto simp: boundsOccurs_def prefix_def)
  then show ?case by (simp add: matchBounds_here matchBoundsHere_complete)
next
  case (Cons p pre)
  from Cons.prems(1) obtain t where s: "s = p # t" and occ: "boundsOccurs t pre a b c d"
    by (auto simp: boundsOccurs_def prefix_def)
  have none: "matchBoundsHere (p # t) = None"
  proof (cases "matchBoundsHere (p # t)")
    case (Some m)
    obtain a' b' c' d' where "m = (a', b', c', d')" by (cases m) auto
    with Some matchBoundsHere_sound[of "p # t" a' b' c' d']
    have "boundsOccurs s [] a' b' c' d'"
      by (auto simp: boundsOccurs_def s)
    from Cons.prems(2)[OF this] show ?thesis by simp
  qed simp
  have "matchBounds t = Some (a, b, c, d)"
  proof (rule Cons.IH[OF occ])
    fix pre' a' b' c' d' assume "boundsOccurs t pre' a' b' c' d'"
    then have "boundsOccurs s (p # pre') a' b' c' d'" by (simp add: boundsOccurs_def s)
    from Cons.prems(2)[OF this] show "length pre \<le> length pre'" by simp
  qed
  with none show ?case by (simp add: s)
qed

text \<open>What \<^verbatim>\<open>parseBounds\<close> returns at a match: each group as a binary64 value, and the
  binary64 differences.\<close>

lemma parseBounds_leftmost:
  assumes "boundsOccurs s pre a b c d"
    and "\<forall>pre' a' b' c' d'. boundsOccurs s pre' a' b' c' d' \<longrightarrow> length pre \<le> length pre'"
  shows "parseBounds s =
           \<lparr>bounds_x = toDouble (of_int (decimal a)),
            bounds_y = toDouble (of_int (decimal b)),
            bounds_width = numSub (toDouble (of_int (decimal c))) (toDouble (of_int (decimal a))),
            bounds_height = numSub (toDouble (of_int (decimal d))) (toDouble (of_int (decimal b)))\<rparr>"
proof -
  have "matchBounds s = Some (a, b, c, d)"
    using assms by (intro matchBounds_leftmost) blast+
  moreover have "parseInt a = toDouble (of_int (decimal a))"
    "parseInt b = toDouble (of_int (decimal b))"
    "parseInt c = toDouble (of_int (decimal c))"
    "parseInt d = toDouble (of_int (decimal d))"
    using assms(1) by (simp_all add: boundsOccurs_def parseInt_decimal)
  ultimately show ?thesis by (simp add: parseBounds_def)
qed

text \<open>Beyond the binary64 range the fields are infinite, and the difference of two infinite
  values is \<^verbatim>\<open>NaN\<close>.\<close>

lemma parseBounds_overflow:
  assumes "boundsOccurs s pre a b c d"
    and "\<forall>pre' a' b' c' d'. boundsOccurs s pre' a' b' c' d' \<longrightarrow> length pre \<le> length pre'"
    and "2 ^ 1024 \<le> decimal a" "2 ^ 1024 \<le> decimal c"
  shows "bounds_x (parseBounds s) = PosInfinity \<and> bounds_width (parseBounds s) = NaN"
proof -
  have "(of_int (2 ^ 1024) :: rat) \<le> of_int (decimal a)"
    "(of_int (2 ^ 1024) :: rat) \<le> of_int (decimal c)"
    using assms(3,4) by (simp_all only: of_int_le_iff)
  then have "pow2 1024 \<le> of_int (decimal a)" "pow2 1024 \<le> of_int (decimal c)"
    by (simp_all add: pow2_def)
  then have "toDouble (of_int (decimal a)) = PosInfinity"
    "toDouble (of_int (decimal c)) = PosInfinity"
    by (simp_all only: toDouble_overflow)
  then show ?thesis
    unfolding parseBounds_leftmost [OF assms(1,2)] by (simp add: numSub_def)
qed

text \<open>The difference of two integers below \<open>2\<^sup>5\<^sup>3\<close> is exact.\<close>

lemma numSub_exact:
  assumes "0 \<le> m" "m < 2 ^ 53" "0 \<le> n" "n < 2 ^ 53"
  shows "numSub (toDouble (of_int n)) (toDouble (of_int m)) = Finite (of_int (n - m))"
proof -
  have "toDouble (of_int n) = Finite (of_int n)" "toDouble (of_int m) = Finite (of_int m)"
    using assms by (simp_all add: toDouble_int)
  moreover have "toDouble (of_int (n - m)) = Finite (of_int (n - m))"
    using assms by (intro toDouble_int) simp
  ultimately show ?thesis by (simp add: numSub_def)
qed

lemma parseBounds_exact:
  assumes "boundsOccurs s pre a b c d"
    and "\<forall>pre' a' b' c' d'. boundsOccurs s pre' a' b' c' d' \<longrightarrow> length pre \<le> length pre'"
    and "decimal a < 2 ^ 53" "decimal b < 2 ^ 53" "decimal c < 2 ^ 53" "decimal d < 2 ^ 53"
  shows "parseBounds s =
           \<lparr>bounds_x = Finite (of_int (decimal a)),
            bounds_y = Finite (of_int (decimal b)),
            bounds_width = Finite (of_int (decimal c - decimal a)),
            bounds_height = Finite (of_int (decimal d - decimal b))\<rparr>"
proof -
  have nn: "0 \<le> decimal a" "0 \<le> decimal b" "0 \<le> decimal c" "0 \<le> decimal d"
    using assms(1) by (simp_all add: boundsOccurs_def decimal_nonneg)
  have "toDouble (of_int (decimal a)) = Finite (of_int (decimal a))"
    "toDouble (of_int (decimal b)) = Finite (of_int (decimal b))"
    using nn assms(3,4) by (simp_all add: toDouble_int)
  moreover have "numSub (toDouble (of_int (decimal c))) (toDouble (of_int (decimal a)))
      = Finite (of_int (decimal c - decimal a))"
    using nn assms(3,5) by (intro numSub_exact)
  moreover have "numSub (toDouble (of_int (decimal d))) (toDouble (of_int (decimal b)))
      = Finite (of_int (decimal d - decimal b))"
    using nn assms(4,6) by (intro numSub_exact)
  ultimately show ?thesis
    unfolding parseBounds_leftmost [OF assms(1,2)] by (simp only:)
qed

text \<open>
  Claim C2, as the code has it. Where the bounds pattern \<open>[a,b][c,d]\<close> matches an input
  (the match is the leftmost occurrence), \<^verbatim>\<open>parseBounds\<close> returns the binary64 values of
  \<open>a\<close> and \<open>b\<close> as \<open>x\<close> and \<open>y\<close>, and the binary64 differences of those of \<open>c\<close> and \<open>a\<close>, and
  of \<open>d\<close> and \<open>b\<close>, as \<open>width\<close> and \<open>height\<close>. When the four integers are below \<open>2\<^sup>5\<^sup>3\<close> this is
  exactly \<open>x = a\<close>, \<open>y = b\<close>, \<open>width = c - a\<close> and \<open>height = d - b\<close>: the differences as they
  are, negative for an inverted rectangle, never clamped to zero.
\<close>

theorem parseBounds_match:
  assumes "boundsOccurs s pre a b c d"
    and "\<forall>pre' a' b' c' d'. boundsOccurs s pre' a' b' c' d' \<longrightarrow> length pre \<le> length pre'"
  shows "parseBounds s =
           \<lparr>bounds_x = toDouble (of_int (decimal a)),
            bounds_y = toDouble (of_int (decimal b)),
            bounds_width = numSub (toDouble (of_int (decimal c))) (toDouble (of_int (decimal a))),
            bounds_height = numSub (toDouble (of_int (decimal d))) (toDouble (of_int (decimal b)))\<rparr> \<and>
         (decimal a < 2 ^ 53 \<and> decimal b < 2 ^ 53 \<and> decimal c < 2 ^ 53 \<and> decimal d < 2 ^ 53 \<longrightarrow>
            parseBounds s =
              \<lparr>bounds_x = Finite (of_int (decimal a)),
               bounds_y = Finite (of_int (decimal b)),
               bounds_width = Finite (of_int (decimal c - decimal a)),
               bounds_height = Finite (of_int (decimal d - decimal b))\<rparr>)"
  using parseBounds_leftmost [OF assms] parseBounds_exact [OF assms] by blast

text \<open>The theorem at an inverted rectangle inside other text: width \<open>-5\<close>, height \<open>-12\<close>.\<close>

theorem parseBounds_match_witness:
  "parseBounds ''b=[10,20][5,8];'' =
     \<lparr>bounds_x = Finite 10, bounds_y = Finite 20,
      bounds_width = Finite (- 5), bounds_height = Finite (- 12)\<rparr>"
proof -
  have occ: "boundsOccurs ''b=[10,20][5,8];'' ''b='' ''10'' ''20'' ''5'' ''8''"
    by (simp add: boundsOccurs_def boundsText_def digitRun_def isDigit_def)
  have first: "\<forall>pre' a' b' c' d'. boundsOccurs ''b=[10,20][5,8];'' pre' a' b' c' d'
                 \<longrightarrow> length ''b='' \<le> length pre'"
  proof (intro allI impI)
    fix pre' a' b' c' d'
    assume o: "boundsOccurs ''b=[10,20][5,8];'' pre' a' b' c' d'"
    show "length ''b='' \<le> length pre'"
    proof (cases pre')
      case Nil
      with o show ?thesis by (simp add: boundsOccurs_def boundsText_def)
    next
      case (Cons p ps)
      with o show ?thesis
        by (cases ps) (simp_all add: boundsOccurs_def boundsText_def)
    qed
  qed
  have small: "decimal ''10'' < 2 ^ 53 \<and> decimal ''20'' < 2 ^ 53 \<and>
               decimal ''5'' < 2 ^ 53 \<and> decimal ''8'' < 2 ^ 53"
    by (simp add: decimal_def digitValue_def)
  from parseBounds_match[OF occ first] small
  have "parseBounds ''b=[10,20][5,8];'' =
          \<lparr>bounds_x = Finite (of_int (decimal ''10'')),
           bounds_y = Finite (of_int (decimal ''20'')),
           bounds_width = Finite (of_int (decimal ''5'' - decimal ''10'')),
           bounds_height = Finite (of_int (decimal ''8'' - decimal ''20''))\<rparr>"
    by blast
  then show ?thesis
    by (simp add: decimal_def digitValue_def)
qed

text \<open>
  Claim C2 as it is stated fails where a group denotes an integer that is no binary64
  value: for \<open>[0,0][9007199254740993,0]\<close>, where \<open>c = 2\<^sup>5\<^sup>3 + 1\<close>, the width is
  \<open>9007199254740992\<close> and not \<open>c - a\<close>.
\<close>

theorem parseBounds_counterexample:
  "boundsOccurs ''[0,0][9007199254740993,0]'' [] ''0'' ''0'' ''9007199254740993'' ''0'' \<and>
   decimal ''9007199254740993'' - decimal ''0'' = 9007199254740993 \<and>
   bounds_width (parseBounds ''[0,0][9007199254740993,0]'') = Finite 9007199254740992 \<and>
   bounds_width (parseBounds ''[0,0][9007199254740993,0]'')
     \<noteq> Finite (of_int (decimal ''9007199254740993'' - decimal ''0''))"
proof -
  let ?s = "''[0,0][9007199254740993,0]''"
  have occ: "boundsOccurs ?s [] ''0'' ''0'' ''9007199254740993'' ''0''"
    by (simp add: boundsOccurs_def boundsText_def digitRun_def isDigit_def)
  have lm: "\<forall>pre' a' b' c' d'. boundsOccurs ?s pre' a' b' c' d'
              \<longrightarrow> length ([] :: string) \<le> length pre'"
    by simp
  have dc: "decimal ''9007199254740993'' = 9007199254740993" "decimal ''0'' = 0"
    by (simp_all add: decimal_def digitValue_def)
  have big: "toDouble 9007199254740993 = Finite 9007199254740992"
    using toDouble_round [of 53 9007199254740993]
    by (simp add: pow2_def roundHalfEven_def Let_def floor_numeral_div)
  have same: "toDouble 9007199254740992 = Finite 9007199254740992"
    using toDouble_round [of 53 9007199254740992]
    by (simp add: pow2_def roundHalfEven_def Let_def floor_numeral_div)
  have zero: "toDouble 0 = Finite 0" by (simp add: toDouble_def)
  have "bounds_width (parseBounds ?s) = Finite 9007199254740992"
    unfolding parseBounds_leftmost [OF occ lm] by (simp add: dc big zero numSub_def same)
  with occ dc show ?thesis by simp
qed

text \<open>
  Claim C8. Where the bounds pattern does not match an input, \<^verbatim>\<open>parseBounds\<close> returns the
  zero rectangle; it is a total function with no error result, so nothing is signalled.
\<close>

theorem parseBounds_no_match:
  assumes "\<not> (\<exists>pre a b c d. boundsOccurs s pre a b c d)"
  shows "parseBounds s =
           \<lparr>bounds_x = Finite 0, bounds_y = Finite 0,
            bounds_width = Finite 0, bounds_height = Finite 0\<rparr>"
proof (cases "matchBounds s")
  case None
  then show ?thesis by (simp add: parseBounds_def)
next
  case (Some m)
  obtain a b c d where "m = (a, b, c, d)" by (cases m) auto
  with Some matchBounds_occurs assms show ?thesis by blast
qed

text \<open>The theorem at the three inputs the specification names.\<close>

theorem parseBounds_no_match_witness:
  "parseBounds ''garbage'' =
     \<lparr>bounds_x = Finite 0, bounds_y = Finite 0, bounds_width = Finite 0, bounds_height = Finite 0\<rparr> \<and>
   parseBounds [] =
     \<lparr>bounds_x = Finite 0, bounds_y = Finite 0, bounds_width = Finite 0, bounds_height = Finite 0\<rparr> \<and>
   parseBounds ''[1,2]'' =
     \<lparr>bounds_x = Finite 0, bounds_y = Finite 0, bounds_width = Finite 0, bounds_height = Finite 0\<rparr>"
proof -
  have none: "matchBounds ''garbage'' = None" "matchBounds [] = None"
    "matchBounds ''[1,2]'' = None"
    by (simp_all add: matchBoundsHere_def scanDigits_def isDigit_def)
  have "\<not> (\<exists>pre a b c d. boundsOccurs ''garbage'' pre a b c d)"
    and "\<not> (\<exists>pre a b c d. boundsOccurs [] pre a b c d)"
    and "\<not> (\<exists>pre a b c d. boundsOccurs ''[1,2]'' pre a b c d)"
    using none occurs_matchBounds by blast+
  then show ?thesis
    using parseBounds_no_match[of "''garbage''"] parseBounds_no_match[of "[]"]
      parseBounds_no_match[of "''[1,2]''"] by simp
qed

subsection \<open>Query\<close>

lemma split_nonempty: "split sep s \<noteq> []"
  by (induction s) (auto split: list.splits)

lemma split_single: "sep \<notin> set s \<Longrightarrow> split sep s = [s]"
  by (induction s) auto

lemma split_many: "sep \<in> set s \<Longrightarrow> length (split sep s) > 1"
proof (induction s)
  case Nil then show ?case by simp
next
  case (Cons h t)
  show ?case
  proof (cases "h = sep")
    case True
    then show ?thesis using split_nonempty[of sep t] by (cases "split sep t") auto
  next
    case False
    with Cons show ?thesis by (auto split: list.splits)
  qed
qed

lemma last_split: "last (split sep s) = rev (takeWhile (\<lambda>c. c \<noteq> sep) (rev s))"
proof (induction s)
  case Nil then show ?case by simp
next
  case (Cons h t)
  show ?case
  proof (cases "h = sep")
    case True
    then show ?thesis using Cons split_nonempty[of sep t]
      by (simp add: takeWhile_append)
  next
    case False
    show ?thesis
    proof (cases "sep \<in> set t")
      case True
      from split_many[OF True] obtain w v ws where "split sep t = w # v # ws"
        by (cases "split sep t"; cases "tl (split sep t)") auto
      with False True Cons show ?thesis by (auto simp: takeWhile_append)
    next
      case False': False
      with False show ?thesis by (simp add: split_single takeWhile_append)
    qed
  qed
qed

lemma includesStr_char: "includesStr s [c] \<longleftrightarrow> c \<in> set s"
  by (induction s) auto

lemma takeWhile_no_slash:
  "c \<notin> set s \<Longrightarrow> takeWhile (\<lambda>x. x \<noteq> c) (rev s) = rev s"
  by (induction s) (auto simp: takeWhile_append)

lemma idPart_afterLastSlash: "idPart rid = afterLastSlash rid"
proof (cases "CHR ''/'' \<in> set rid")
  case True
  then show ?thesis by (simp add: idPart_def afterLastSlash_def includesStr_char last_split)
next
  case False
  then show ?thesis
    by (simp add: idPart_def afterLastSlash_def includesStr_char takeWhile_no_slash)
qed

lemma afterLastSlash_suffix:
  "CHR ''/'' \<notin> set suf \<Longrightarrow> afterLastSlash (pre @ ''/'' @ suf) = suf"
  by (simp add: afterLastSlash_def takeWhile_append takeWhile_no_slash)

lemma afterLastSlash_whole:
  "CHR ''/'' \<notin> set s \<Longrightarrow> afterLastSlash s = s"
  by (simp add: afterLastSlash_def takeWhile_no_slash)

lemma selectorMatch_satisfies: "selectorMatch selector el = satisfies selector el"
  by (simp add: selectorMatch_def satisfies_def idPart_afterLastSlash split: option.splits)

lemma preorderFrom_nodes:
  "map snd (preorderFrom d elements) = map snd (preorderFrom d' elements)"
proof (induction d elements arbitrary: d' rule: preorderFrom.induct)
  case (1 d)
  show ?case by simp
next
  case (2 d el rest)
  from "2.IH"(1)[of "d' + 1"] "2.IH"(2)[of d'] show ?case by simp
qed

lemma findWalk_preorder:
  "findWalk selector elements results =
     results @ filter (satisfies selector) (map snd (preorderFrom 0 elements))"
proof (induction selector elements results rule: findWalk.induct)
  case (1 selector results)
  show ?case by simp
next
  case (2 selector el rest results)
  let ?r = "if selectorMatch selector el then results @ [el] else results"
  have "findWalk selector (el # rest) results = findWalk selector rest (findWalk selector (children el) ?r)"
    by simp
  also have "\<dots> = findWalk selector (children el) ?r
                    @ filter (satisfies selector) (map snd (preorderFrom 0 rest))"
    by (rule "2.IH"(2))
  also have "\<dots> = (?r @ filter (satisfies selector) (map snd (preorderFrom 0 (children el))))
                    @ filter (satisfies selector) (map snd (preorderFrom 0 rest))"
    by (simp only: "2.IH"(1))
  also have "\<dots> = results @ filter (satisfies selector) (map snd (preorderFrom 0 (el # rest)))"
    using preorderFrom_nodes[of "Suc 0" "children el" 0]
    by (simp add: selectorMatch_satisfies)
  finally show ?case .
qed

text \<open>
  Claim C1. \<^verbatim>\<open>findElements\<close> returns exactly the nodes that satisfy every present field of
  the selector, in pre-order over the whole forest, the nodes below a match included. A
  present \<open>resource_id\<close> holds when the raw id is the value or its part after the last
  slash is (the whole id when it has no slash); \<open>text\<close> and \<open>content_desc\<close> are compared
  for equality. The selector \<open>{resource_id: "x"}\<close> holds for the ids \<open>com.app:id/x\<close> and
  \<open>x\<close> and for neither \<open>xx\<close> nor \<open>com.app:id/xx\<close>.
\<close>

theorem findElements_preorder:
  "findElements roots selector = filter (satisfies selector) (preorder roots) \<and>
   satisfies \<lparr>selector_resource_id = Some ''x'', selector_text = None, selector_content_desc = None\<rparr>
     (UiElement ''com.app:id/x'' t1 c1 k1 p1 b1 f1 g1 h1 ch1) \<and>
   satisfies \<lparr>selector_resource_id = Some ''x'', selector_text = None, selector_content_desc = None\<rparr>
     (UiElement ''x'' t2 c2 k2 p2 b2 f2 g2 h2 ch2) \<and>
   \<not> satisfies \<lparr>selector_resource_id = Some ''x'', selector_text = None, selector_content_desc = None\<rparr>
     (UiElement ''xx'' t3 c3 k3 p3 b3 f3 g3 h3 ch3) \<and>
   \<not> satisfies \<lparr>selector_resource_id = Some ''x'', selector_text = None, selector_content_desc = None\<rparr>
     (UiElement ''com.app:id/xx'' t4 c4 k4 p4 b4 f4 g4 h4 ch4)"
  by (simp add: findElements_def preorder_def findWalk_preorder satisfies_def afterLastSlash_def)

subsection \<open>Element centre\<close>

lemma floor_half: "\<lfloor>(of_int k :: rat) / 2 + 1 / 2\<rfloor> = (k + 1) div 2"
proof -
  have "((of_int k :: rat) / 2 + 1 / 2) = of_int (k + 1) / of_int 2"
    by (simp add: field_simps)
  then show ?thesis by (simp only: floor_divide_of_int_eq)
qed

lemma midpoint_half: "(of_int x :: rat) + of_int w / 2 = of_int (2 * x + w) / 2"
  by (simp add: field_simps)

text \<open>When the width and the doubled midpoint are below \<open>2\<^sup>5\<^sup>3\<close> in magnitude, halving and
  adding are exact, and \<^verbatim>\<open>Math.round\<close> gives \<open>(2x + width + 1) div 2\<close>.\<close>

lemma center_exact:
  assumes "\<bar>w\<bar> < 2 ^ 53" "\<bar>2 * x + w\<bar> < 2 ^ 53"
  shows "mathRound (numAdd (Finite (of_int x)) (numHalve (Finite (of_int w))))
           = Finite (of_int ((2 * x + w + 1) div 2))"
proof -
  have h: "numHalve (Finite (of_int w)) = Finite (of_int w / 2)"
    using assms(1) by (simp add: toDouble_half)
  have "toDouble (of_int x + of_int w / 2) = Finite (of_int (2 * x + w) / 2)"
    unfolding midpoint_half using assms(2) by (rule toDouble_half)
  then have "numAdd (Finite (of_int x)) (numHalve (Finite (of_int w)))
      = Finite (of_int (2 * x + w) / 2)"
    unfolding h by simp
  then show ?thesis by (simp only: mathRound.simps floor_half)
qed

lemma roundHalfAway_nonneg:
  "0 \<le> 2 * x + w \<Longrightarrow>
   roundHalfAwayFromZero (of_int x + of_int w / 2) = (2 * x + w + 1) div 2"
proof -
  assume "0 \<le> 2 * x + w"
  then have "(0::rat) \<le> of_int (2 * x + w)" by (simp only: of_int_0_le_iff)
  then have "(0::rat) \<le> of_int (2 * x + w) / 2" by simp
  then show ?thesis
    unfolding midpoint_half roundHalfAwayFromZero_def by (simp only: if_True floor_half)
qed

text \<open>
  Claim C9, as the code has it. For a rectangle of integers whose width and height, and
  whose doubled midpoints \<open>2x + width\<close> and \<open>2y + height\<close>, are below \<open>2\<^sup>5\<^sup>3\<close> in magnitude,
  \<^verbatim>\<open>elementCenter\<close> rounds each midpoint to the nearest integer, a half towards \<open>+\<infinity>\<close>: the
  results are \<open>(2x + width + 1) div 2\<close> and \<open>(2y + height + 1) div 2\<close>. This is rounding half
  away from zero whenever the midpoint is not negative. It covers every rectangle that
  \<^verbatim>\<open>parseBounds\<close> returns for coordinates below \<open>2\<^sup>5\<^sup>2\<close>, the degenerate and the inverted ones
  included: there the result is the midpoint of \<open>a\<close> and \<open>c\<close>, and of \<open>b\<close> and \<open>d\<close>, rounded
  half away from zero.
\<close>

theorem elementCenter_round:
  "(bounds el = \<lparr>bounds_x = Finite (of_int x), bounds_y = Finite (of_int y),
                 bounds_width = Finite (of_int w), bounds_height = Finite (of_int h)\<rparr> \<and>
    \<bar>w\<bar> < 2 ^ 53 \<and> \<bar>h\<bar> < 2 ^ 53 \<and> \<bar>2 * x + w\<bar> < 2 ^ 53 \<and> \<bar>2 * y + h\<bar> < 2 ^ 53 \<longrightarrow>
      elementCenter el = \<lparr>point_x = Finite (of_int ((2 * x + w + 1) div 2)),
                          point_y = Finite (of_int ((2 * y + h + 1) div 2))\<rparr> \<and>
      (0 \<le> 2 * x + w \<longrightarrow>
         point_x (elementCenter el)
           = Finite (of_int (roundHalfAwayFromZero (of_int x + of_int w / 2)))) \<and>
      (0 \<le> 2 * y + h \<longrightarrow>
         point_y (elementCenter el)
           = Finite (of_int (roundHalfAwayFromZero (of_int y + of_int h / 2))))) \<and>
   (boundsOccurs s pre a b c d \<and>
    (\<forall>pre' a' b' c' d'. boundsOccurs s pre' a' b' c' d' \<longrightarrow> length pre \<le> length pre') \<and>
    decimal a < 2 ^ 52 \<and> decimal b < 2 ^ 52 \<and> decimal c < 2 ^ 52 \<and> decimal d < 2 ^ 52 \<and>
    bounds el = parseBounds s \<longrightarrow>
      elementCenter el =
        \<lparr>point_x = Finite (of_int (roundHalfAwayFromZero
                      (of_int (decimal a) + of_int (decimal c - decimal a) / 2))),
         point_y = Finite (of_int (roundHalfAwayFromZero
                      (of_int (decimal b) + of_int (decimal d - decimal b) / 2)))\<rparr>)"
proof -
  have rect: "elementCenter el = \<lparr>point_x = Finite (of_int ((2 * x + w + 1) div 2)),
                                  point_y = Finite (of_int ((2 * y + h + 1) div 2))\<rparr>"
    if "bounds el = \<lparr>bounds_x = Finite (of_int x), bounds_y = Finite (of_int y),
                     bounds_width = Finite (of_int w), bounds_height = Finite (of_int h)\<rparr>"
      and "\<bar>w\<bar> < 2 ^ 53" "\<bar>h\<bar> < 2 ^ 53" "\<bar>2 * x + w\<bar> < 2 ^ 53" "\<bar>2 * y + h\<bar> < 2 ^ 53"
    for x y w h
    using that
    by (simp add: elementCenter_def center_exact
             del: numHalve.simps numAdd.simps mathRound.simps)
  have first: "bounds el = \<lparr>bounds_x = Finite (of_int x), bounds_y = Finite (of_int y),
                 bounds_width = Finite (of_int w), bounds_height = Finite (of_int h)\<rparr> \<and>
      \<bar>w\<bar> < 2 ^ 53 \<and> \<bar>h\<bar> < 2 ^ 53 \<and> \<bar>2 * x + w\<bar> < 2 ^ 53 \<and> \<bar>2 * y + h\<bar> < 2 ^ 53 \<longrightarrow>
      elementCenter el = \<lparr>point_x = Finite (of_int ((2 * x + w + 1) div 2)),
                          point_y = Finite (of_int ((2 * y + h + 1) div 2))\<rparr> \<and>
      (0 \<le> 2 * x + w \<longrightarrow>
         point_x (elementCenter el)
           = Finite (of_int (roundHalfAwayFromZero (of_int x + of_int w / 2)))) \<and>
      (0 \<le> 2 * y + h \<longrightarrow>
         point_y (elementCenter el)
           = Finite (of_int (roundHalfAwayFromZero (of_int y + of_int h / 2))))"
  proof (intro impI, elim conjE)
    assume b: "bounds el = \<lparr>bounds_x = Finite (of_int x), bounds_y = Finite (of_int y),
                 bounds_width = Finite (of_int w), bounds_height = Finite (of_int h)\<rparr>"
      and m: "\<bar>w\<bar> < 2 ^ 53" "\<bar>h\<bar> < 2 ^ 53" "\<bar>2 * x + w\<bar> < 2 ^ 53" "\<bar>2 * y + h\<bar> < 2 ^ 53"
    note r = rect [OF b m]
    show "elementCenter el = \<lparr>point_x = Finite (of_int ((2 * x + w + 1) div 2)),
                          point_y = Finite (of_int ((2 * y + h + 1) div 2))\<rparr> \<and>
      (0 \<le> 2 * x + w \<longrightarrow>
         point_x (elementCenter el)
           = Finite (of_int (roundHalfAwayFromZero (of_int x + of_int w / 2)))) \<and>
      (0 \<le> 2 * y + h \<longrightarrow>
         point_y (elementCenter el)
           = Finite (of_int (roundHalfAwayFromZero (of_int y + of_int h / 2))))"
      by (simp add: r roundHalfAway_nonneg)
  qed
  have second: "elementCenter el =
        \<lparr>point_x = Finite (of_int (roundHalfAwayFromZero
                      (of_int (decimal a) + of_int (decimal c - decimal a) / 2))),
         point_y = Finite (of_int (roundHalfAwayFromZero
                      (of_int (decimal b) + of_int (decimal d - decimal b) / 2)))\<rparr>"
    if occ: "boundsOccurs s pre a b c d"
      and lm: "\<forall>pre' a' b' c' d'. boundsOccurs s pre' a' b' c' d' \<longrightarrow> length pre \<le> length pre'"
      and sm: "decimal a < 2 ^ 52" "decimal b < 2 ^ 52" "decimal c < 2 ^ 52" "decimal d < 2 ^ 52"
      and pb: "bounds el = parseBounds s"
  proof -
    have nn: "0 \<le> decimal a" "0 \<le> decimal b" "0 \<le> decimal c" "0 \<le> decimal d"
      using occ by (simp_all add: boundsOccurs_def decimal_nonneg)
    have b: "bounds el =
        \<lparr>bounds_x = Finite (of_int (decimal a)), bounds_y = Finite (of_int (decimal b)),
         bounds_width = Finite (of_int (decimal c - decimal a)),
         bounds_height = Finite (of_int (decimal d - decimal b))\<rparr>"
      unfolding pb using occ lm sm by (intro parseBounds_exact) simp_all
    have r: "elementCenter el =
        \<lparr>point_x = Finite (of_int ((2 * decimal a + (decimal c - decimal a) + 1) div 2)),
         point_y = Finite (of_int ((2 * decimal b + (decimal d - decimal b) + 1) div 2))\<rparr>"
      using b nn sm by (intro rect) simp_all
    have "0 \<le> 2 * decimal a + (decimal c - decimal a)"
      "0 \<le> 2 * decimal b + (decimal d - decimal b)"
      using nn by simp_all
    then show ?thesis
      unfolding r by (simp only: roundHalfAway_nonneg)
  qed
  from first second show ?thesis by blast
qed

text \<open>The theorem at the inverted rectangle \<open>[5,0][0,0]\<close>, whose midpoint is \<open>5/2\<close>.\<close>

theorem elementCenter_round_witness:
  "elementCenter (buildElement (''bounds='' @ [dquote] @ ''[5,0][0,0]'' @ [dquote]))
     = \<lparr>point_x = Finite 3, point_y = Finite 0\<rparr> \<and>
   roundHalfAwayFromZero (of_int 5 + of_int (- 5) / 2) = 3"
proof -
  let ?el = "buildElement (''bounds='' @ [dquote] @ ''[5,0][0,0]'' @ [dquote])"
  let ?s = "''[5,0][0,0]''"
  have pb: "bounds ?el = parseBounds ?s"
    by (simp add: buildElement_def extractAttr_def matchAttrHere_def dquote_def)
  have occ: "boundsOccurs ?s [] ''5'' ''0'' ''0'' ''0''"
    by (simp add: boundsOccurs_def boundsText_def digitRun_def isDigit_def)
  have lm: "\<forall>pre' a' b' c' d'. boundsOccurs ?s pre' a' b' c' d' \<longrightarrow> length ([] :: string) \<le> length pre'"
    by simp
  have sm: "decimal ''5'' < 2 ^ 52 \<and> decimal ''0'' < 2 ^ 52"
    by (simp add: decimal_def digitValue_def)
  have par: "elementCenter ?el =
        \<lparr>point_x = Finite (of_int (roundHalfAwayFromZero
                      (of_int (decimal ''5'') + of_int (decimal ''0'' - decimal ''5'') / 2))),
         point_y = Finite (of_int (roundHalfAwayFromZero
                      (of_int (decimal ''0'') + of_int (decimal ''0'' - decimal ''0'') / 2)))\<rparr>"
    using elementCenter_round [of ?el _ _ _ _ ?s "[]" "''5''" "''0''" "''0''" "''0''"] pb occ lm sm
    by blast
  have dc: "decimal ''5'' = 5" "decimal ''0'' = 0"
    by (simp_all add: decimal_def digitValue_def)
  have rect: "bounds ?el = \<lparr>bounds_x = Finite (of_int 5), bounds_y = Finite (of_int 0),
                 bounds_width = Finite (of_int (- 5)), bounds_height = Finite (of_int 0)\<rparr>"
    unfolding pb using parseBounds_exact [OF occ lm] by (simp add: dc)
  have gen: "elementCenter ?el = \<lparr>point_x = Finite (of_int ((2 * 5 + (- 5) + 1) div 2)),
                                 point_y = Finite (of_int ((2 * 0 + 0 + 1) div 2))\<rparr>"
    using elementCenter_round [of ?el 5 0 "- 5" 0] rect by simp
  have "roundHalfAwayFromZero (of_int 5 + of_int (- 5) / 2) = 3"
    "roundHalfAwayFromZero (0 :: rat) = 0"
    by (simp_all add: roundHalfAwayFromZero_def floor_numeral_div floor_one_div)
  with par gen show ?thesis by (simp add: dc)
qed

text \<open>
  Claim C9 as it is stated fails where the midpoint is no binary64 value. The tag
  attribute \<open>bounds="[4503599627370498,0][4503599627370499,0]"\<close> gives the rectangle with
  \<open>x = 2\<^sup>5\<^sup>2 + 2\<close> and \<open>width = 1\<close>; the sum \<open>x + width / 2\<close> is rounded to the even neighbour
  \<open>2\<^sup>5\<^sup>2 + 2\<close> before \<^verbatim>\<open>Math.round\<close> sees it, while the midpoint \<open>2\<^sup>5\<^sup>2 + 2 + 1/2\<close> rounded half
  away from zero is \<open>2\<^sup>5\<^sup>2 + 3\<close>.
\<close>

theorem elementCenter_counterexample:
  "bounds (buildElement (''bounds='' @ [dquote] @ ''[4503599627370498,0][4503599627370499,0]'' @ [dquote]))
     = \<lparr>bounds_x = Finite 4503599627370498, bounds_y = Finite 0,
        bounds_width = Finite 1, bounds_height = Finite 0\<rparr> \<and>
   point_x (elementCenter (buildElement
       (''bounds='' @ [dquote] @ ''[4503599627370498,0][4503599627370499,0]'' @ [dquote])))
     = Finite 4503599627370498 \<and>
   roundHalfAwayFromZero (4503599627370498 + 1 / 2) = 4503599627370499 \<and>
   point_x (elementCenter (buildElement
       (''bounds='' @ [dquote] @ ''[4503599627370498,0][4503599627370499,0]'' @ [dquote])))
     \<noteq> Finite (of_int (roundHalfAwayFromZero (4503599627370498 + 1 / 2)))"
proof -
  let ?s = "''[4503599627370498,0][4503599627370499,0]''"
  let ?el = "buildElement (''bounds='' @ [dquote] @ ?s @ [dquote])"
  have pb: "bounds ?el = parseBounds ?s"
    by (simp add: buildElement_def extractAttr_def matchAttrHere_def dquote_def)
  have occ: "boundsOccurs ?s [] ''4503599627370498'' ''0'' ''4503599627370499'' ''0''"
    by (simp add: boundsOccurs_def boundsText_def digitRun_def isDigit_def)
  have lm: "\<forall>pre' a' b' c' d'. boundsOccurs ?s pre' a' b' c' d'
              \<longrightarrow> length ([] :: string) \<le> length pre'"
    by simp
  have dc: "decimal ''4503599627370498'' = 4503599627370498"
    "decimal ''4503599627370499'' = 4503599627370499" "decimal ''0'' = 0"
    by (simp_all add: decimal_def digitValue_def)
  have b: "bounds ?el = \<lparr>bounds_x = Finite 4503599627370498, bounds_y = Finite 0,
                          bounds_width = Finite 1, bounds_height = Finite 0\<rparr>"
    unfolding pb using parseBounds_exact [OF occ lm] by (simp add: dc)
  have half: "numHalve (Finite 1) = Finite (1 / 2)"
    using toDouble_half [of 1] by simp
  have sum: "toDouble (9007199254740997 / 2) = Finite 4503599627370498"
    using toDouble_round [of 52 "9007199254740997 / 2"]
    by (simp add: pow2_def roundHalfEven_def Let_def floor_numeral_div)
  have px: "point_x (elementCenter ?el) = Finite 4503599627370498"
    unfolding elementCenter_def b
    by (simp add: half sum floor_numeral_div del: numHalve.simps)
  have away: "roundHalfAwayFromZero (4503599627370498 + 1 / 2) = 4503599627370499"
    by (simp add: roundHalfAwayFromZero_def floor_numeral_div)
  show ?thesis
    unfolding px away using b by simp
qed

subsection \<open>Renderers\<close>

declare flattenWalk.simps [simp del] compactWalk.simps [simp del]

lemma withinDepth_pair: "withinDepth k (d, el) = (int d \<le> k)"
  by (simp add: withinDepth_def)

lemma preorderFrom_depth_ge:
  "entry \<in> set (preorderFrom d elements) \<Longrightarrow> d \<le> fst entry"
  by (induction d elements rule: preorderFrom.induct) auto

lemma filter_beyond:
  "k < int d \<Longrightarrow> filter (withinDepth k) (preorderFrom d elements) = []"
  by (auto simp: filter_empty_conv withinDepth_def dest: preorderFrom_depth_ge)

text \<open>Both walks emit the entries of the pre-order listing that are within the limit.\<close>

lemma flatten_preorder:
  "flattenWalk k elements d result =
     result @ map (\<lambda>entry. flatRecord (snd entry) (fst entry))
                  (filter (withinDepth k) (preorderFrom d elements))"
  "int d \<le> k \<Longrightarrow> flattenLoop k elements d result =
     result @ map (\<lambda>entry. flatRecord (snd entry) (fst entry))
                  (filter (withinDepth k) (preorderFrom d elements))"
proof (induction k elements d result and k elements d result rule: flattenWalk_flattenLoop.induct)
  case (1 maxDepth elements depth result)
  show ?case
  proof (cases "int depth > maxDepth")
    case True
    then show ?thesis by (simp add: filter_beyond flattenWalk.simps compactWalk.simps)
  next
    case False
    with 1 show ?thesis by (simp add: flattenWalk.simps compactWalk.simps)
  qed
next
  case (2 maxDepth depth result)
  show ?case by simp
next
  case (3 maxDepth el rest depth result)
  let ?f = "\<lambda>entry. flatRecord (snd entry) (fst entry)"
  let ?w = "flattenWalk maxDepth (children el) (depth + 1) (result @ [flatRecord el depth])"
  have "flattenLoop maxDepth (el # rest) depth result = flattenLoop maxDepth rest depth ?w"
    by simp
  also have "\<dots> = ?w @ map ?f (filter (withinDepth maxDepth) (preorderFrom depth rest))"
    using "3.IH"(2) "3.prems" by simp
  also have "?w = (result @ [flatRecord el depth]) @
                    map ?f (filter (withinDepth maxDepth) (preorderFrom (depth + 1) (children el)))"
    by (rule "3.IH"(1))
  finally show ?case using "3.prems" by (simp add: withinDepth_pair)
qed

lemma compact_preorder:
  "compactWalk k elements d lines =
     lines @ map (\<lambda>entry. compactLine (snd entry) (fst entry))
                  (filter (withinDepth k) (preorderFrom d elements))"
  "int d \<le> k \<Longrightarrow> compactLoop k elements d lines =
     lines @ map (\<lambda>entry. compactLine (snd entry) (fst entry))
                  (filter (withinDepth k) (preorderFrom d elements))"
proof (induction k elements d lines and k elements d lines rule: compactWalk_compactLoop.induct)
  case (1 maxDepth elements depth lines)
  show ?case
  proof (cases "int depth > maxDepth")
    case True
    then show ?thesis by (simp add: filter_beyond flattenWalk.simps compactWalk.simps)
  next
    case False
    with 1 show ?thesis by (simp add: flattenWalk.simps compactWalk.simps)
  qed
next
  case (2 maxDepth depth lines)
  show ?case by simp
next
  case (3 maxDepth el rest depth lines)
  let ?f = "\<lambda>entry. compactLine (snd entry) (fst entry)"
  let ?w = "compactWalk maxDepth (children el) (depth + 1) (lines @ [compactLine el depth])"
  have "compactLoop maxDepth (el # rest) depth lines = compactLoop maxDepth rest depth ?w"
    by simp
  also have "\<dots> = ?w @ map ?f (filter (withinDepth maxDepth) (preorderFrom depth rest))"
    using "3.IH"(2) "3.prems" by simp
  also have "?w = (lines @ [compactLine el depth]) @
                    map ?f (filter (withinDepth maxDepth) (preorderFrom (depth + 1) (children el)))"
    by (rule "3.IH"(1))
  finally show ?case using "3.prems" by (simp add: withinDepth_pair)
qed

lemma flattenHierarchy_limit:
  "flattenHierarchy roots maxDepthArg =
     map (\<lambda>entry. flatRecord (snd entry) (fst entry))
         (filter (withinDepth (flattenLimit maxDepthArg)) (preorderFrom 0 roots))"
  by (simp add: flattenHierarchy_def flattenLimit_def flatten_preorder(1))

lemma flattenHierarchy_preorder:
  "flattenHierarchy roots (Some k) =
     map (\<lambda>entry. flatRecord (snd entry) (fst entry)) (filter (withinDepth k) (preorderFrom 0 roots))"
  by (simp add: flattenHierarchy_limit flattenLimit_def)

lemma compactLines_preorder:
  "compactLines roots k =
     map (\<lambda>entry. compactLine (snd entry) (fst entry)) (filter (withinDepth k) (preorderFrom 0 roots))"
  by (simp add: compactLines_def compact_preorder(1))

lemma flat_depth_flatRecord: "flat_depth (flatRecord el d) = d"
  by (simp add: flatRecord_def)

lemma filter_within_within:
  "k \<le> K \<Longrightarrow> filter (withinDepth k) (filter (withinDepth K) xs) = filter (withinDepth k) xs"
  by (induction xs) (auto simp: withinDepth_def)

lemma filter_map_flatRecord:
  "filter (\<lambda>r. int (flat_depth r) \<le> k)
     (map (\<lambda>entry. flatRecord (snd entry) (fst entry)) xs) =
   map (\<lambda>entry. flatRecord (snd entry) (fst entry)) (filter (withinDepth k) xs)"
  by (induction xs) (simp_all add: flat_depth_flatRecord withinDepth_def)

lemma filter_all_within:
  "list_all (withinDepth K) xs \<Longrightarrow> filter (withinDepth K) xs = xs"
  by (induction xs) simp_all

text \<open>
  Claim C3. With the limit \<open>k\<close>, \<^verbatim>\<open>flattenHierarchy\<close> and \<^verbatim>\<open>formatCompactTree\<close> emit no node
  whose true depth (a root has depth 0) exceeds \<open>k\<close>: what they emit is the pre-order
  listing of the forest restricted to the nodes of depth at most \<open>k\<close>, in the same order,
  so a node beyond the limit is left out with everything below it. It is also the output
  for any larger limit \<open>K\<close> restricted to depth at most \<open>k\<close>, and a limit that no node
  exceeds gives the whole listing. The text of \<^verbatim>\<open>formatCompactTree\<close> is the emitted lines
  joined by line feeds.
\<close>

theorem depth_limit:
  assumes "k \<le> K"
  shows "list_all (\<lambda>r. int (flat_depth r) \<le> k) (flattenHierarchy roots (Some k)) \<and>
         flattenHierarchy roots (Some k) =
           map (\<lambda>entry. flatRecord (snd entry) (fst entry))
               (filter (withinDepth k) (preorderFrom 0 roots)) \<and>
         flattenHierarchy roots (Some k) =
           filter (\<lambda>r. int (flat_depth r) \<le> k) (flattenHierarchy roots (Some K)) \<and>
         compactLines roots k =
           map (\<lambda>entry. compactLine (snd entry) (fst entry))
               (filter (withinDepth k) (preorderFrom 0 roots)) \<and>
         compactLines roots k =
           map (\<lambda>entry. compactLine (snd entry) (fst entry))
               (filter (withinDepth k) (filter (withinDepth K) (preorderFrom 0 roots))) \<and>
         compactLines roots K =
           map (\<lambda>entry. compactLine (snd entry) (fst entry))
               (filter (withinDepth K) (preorderFrom 0 roots)) \<and>
         formatCompactTree roots (Some k) = join [CHR 0x0A] (compactLines roots k) \<and>
         (list_all (withinDepth K) (preorderFrom 0 roots) \<longrightarrow>
            flattenHierarchy roots (Some K) =
              map (\<lambda>entry. flatRecord (snd entry) (fst entry)) (preorderFrom 0 roots) \<and>
            compactLines roots K =
              map (\<lambda>entry. compactLine (snd entry) (fst entry)) (preorderFrom 0 roots))"
proof -
  have a: "list_all (\<lambda>r. int (flat_depth r) \<le> k) (flattenHierarchy roots (Some k))"
    by (auto simp: flattenHierarchy_preorder list_all_iff flat_depth_flatRecord withinDepth_def)
  have c: "flattenHierarchy roots (Some k) =
           filter (\<lambda>r. int (flat_depth r) \<le> k) (flattenHierarchy roots (Some K))"
    by (simp only: flattenHierarchy_preorder filter_map_flatRecord filter_within_within[OF assms])
  have d: "compactLines roots k =
           map (\<lambda>entry. compactLine (snd entry) (fst entry))
               (filter (withinDepth k) (filter (withinDepth K) (preorderFrom 0 roots)))"
    by (simp only: compactLines_preorder filter_within_within[OF assms])
  have f: "formatCompactTree roots (Some k) = join [CHR 0x0A] (compactLines roots k)"
    by (simp add: formatCompactTree_def)
  have e: "list_all (withinDepth K) (preorderFrom 0 roots) \<longrightarrow>
            flattenHierarchy roots (Some K) =
              map (\<lambda>entry. flatRecord (snd entry) (fst entry)) (preorderFrom 0 roots) \<and>
            compactLines roots K =
              map (\<lambda>entry. compactLine (snd entry) (fst entry)) (preorderFrom 0 roots)"
    by (simp only: flattenHierarchy_preorder compactLines_preorder) (simp add: filter_all_within)
  from a c d e f flattenHierarchy_preorder[of roots k] compactLines_preorder[of roots k]
    compactLines_preorder[of roots K]
  show ?thesis by blast
qed

text \<open>The theorem at three nested nodes, with the limits 1 and 2.\<close>

theorem depth_limit_witness:
  "flattenHierarchy (nest 3) (Some 1) =
     filter (\<lambda>r. int (flat_depth r) \<le> 1) (flattenHierarchy (nest 3) (Some 2)) \<and>
   length (flattenHierarchy (nest 3) (Some 1)) = 2 \<and>
   length (flattenHierarchy (nest 3) (Some 2)) = 3"
proof -
  have le: "(1::int) \<le> 2" by simp
  have n: "nest 3 = nest (Suc (Suc (Suc 0)))" by (simp add: numeral_3_eq_3)
  have "length (flattenHierarchy (nest 3) (Some 1)) = 2"
    and "length (flattenHierarchy (nest 3) (Some 2)) = 3"
    unfolding n by (simp_all add: flattenHierarchy_def flattenWalk.simps)
  with depth_limit[OF le, of "nest 3"] show ?thesis by blast
qed

lemma preorderFrom_nest: "preorderFrom d (nest n) = map (\<lambda>i. (d + i, hd (nest (n - i)))) [0..<n]"
proof (induction n arbitrary: d)
  case 0 show ?case by simp
next
  case (Suc n)
  have "[0..<Suc n] = 0 # map Suc [0..<n]"
    by (simp add: upt_conv_Cons map_Suc_upt del: upt_Suc)
  then show ?case using Suc[of "d + 1"] by (simp add: Suc_diff_le comp_def del: upt_Suc)
qed

text \<open>
  Claim C7 as it is stated fails: with 22 nodes nested in one chain, \<^verbatim>\<open>flattenHierarchy\<close>
  called without a limit stops below depth 20 and yields 21 records.
\<close>

theorem flatten_count_counterexample:
  "length (flattenHierarchy (nest 22) None) \<noteq> length (preorder (nest 22))"
proof -
  have "length (flattenHierarchy (nest 22) None) = 21"
    by code_simp
  moreover have "length (preorder (nest 22)) = 22"
    by code_simp
  ultimately show ?thesis by simp
qed


lemma recordOf_flatRecord: "recordOf (flatRecord el d) (d, el)"
  by (simp add: recordOf_def flatRecord_def setChildren_def)

lemma list_all2_recordOf:
  "list_all2 recordOf (map (\<lambda>entry. flatRecord (snd entry) (fst entry)) xs) xs"
  by (induction xs) (auto simp: recordOf_flatRecord)

text \<open>
  Claim C7, as the code has it. When no node of the forest is deeper than the limit (20
  when \<^verbatim>\<open>maxDepth\<close> is omitted), \<^verbatim>\<open>flattenHierarchy\<close> yields one record for each of the \<open>N\<close>
  nodes, in pre-order; each record has the true depth of its node, the node's own fields
  and an empty \<open>children\<close>.
\<close>

theorem flattenHierarchy_all:
  assumes "list_all (withinDepth (flattenLimit maxDepthArg)) (preorderFrom 0 roots)"
  shows "length (flattenHierarchy roots maxDepthArg) = length (preorder roots) \<and>
         list_all2 recordOf (flattenHierarchy roots maxDepthArg) (preorderFrom 0 roots)"
proof -
  have "flattenHierarchy roots maxDepthArg =
          map (\<lambda>entry. flatRecord (snd entry) (fst entry)) (preorderFrom 0 roots)"
    by (simp only: flattenHierarchy_limit filter_all_within[OF assms])
  then show ?thesis by (simp add: list_all2_recordOf preorder_def)
qed

text \<open>The theorem at three nested nodes and the default limit.\<close>

theorem flattenHierarchy_all_witness:
  "length (flattenHierarchy (nest 3) None) = length (preorder (nest 3)) \<and>
   list_all2 recordOf (flattenHierarchy (nest 3) None) (preorderFrom 0 (nest 3)) \<and>
   length (preorder (nest 3)) = 3"
proof -
  have w: "list_all (withinDepth (flattenLimit None)) (preorderFrom 0 (nest 3))"
    by code_simp
  have "length (preorder (nest 3)) = 3" by code_simp
  with flattenHierarchy_all[OF w] show ?thesis by blast
qed

subsection \<open>Structural parser\<close>

text \<open>\<^verbatim>\<open>includes\<close> holds exactly of the contiguous parts of a string.\<close>

lemma includesStr_iff: "includesStr s sub \<longleftrightarrow> (\<exists>pre post. s = pre @ sub @ post)"
proof (induction s)
  case Nil
  show ?case by auto
next
  case (Cons h t)
  show ?case
  proof
    assume "includesStr (h # t) sub"
    then consider "prefix sub (h # t)" | "includesStr t sub" by auto
    then show "\<exists>pre post. h # t = pre @ sub @ post"
    proof cases
      case 1
      then obtain post where "h # t = sub @ post" by (auto simp: prefix_def)
      then have "h # t = [] @ sub @ post" by simp
      then show ?thesis by blast
    next
      case 2
      with Cons obtain pre post where "t = pre @ sub @ post" by blast
      then have "h # t = (h # pre) @ sub @ post" by simp
      then show ?thesis by blast
    qed
  next
    assume "\<exists>pre post. h # t = pre @ sub @ post"
    then obtain pre post where e: "h # t = pre @ sub @ post" by blast
    show "includesStr (h # t) sub"
    proof (cases pre)
      case Nil
      with e have "prefix sub (h # t)" by (simp add: prefix_def)
      then show ?thesis by simp
    next
      case (Cons p ps)
      with e have "t = ps @ sub @ post" by simp
      with Cons.IH have "includesStr t sub" by blast
      then show ?thesis by simp
    qed
  qed
qed

lemma matchAttrHere_prefix:
  "matchAttrHere name s = Some v \<Longrightarrow> prefix (attrPattern name) s"
  by (simp add: matchAttrHere_def attrPattern_def split: if_splits)

lemma includesStr_prefix: "prefix sub s \<Longrightarrow> includesStr s sub"
  by (cases s) auto

lemma searchAttr_absent:
  "\<not> includesStr attrs (attrPattern name) \<Longrightarrow> searchAttr name attrs = None"
proof (induction attrs)
  case Nil
  then show ?case
    using matchAttrHere_prefix[of name "[]"] includesStr_prefix[of "attrPattern name" "[]"]
    by (cases "matchAttrHere name []") auto
next
  case (Cons h t)
  have "matchAttrHere name (h # t) = None"
    using Cons.prems matchAttrHere_prefix[of name "h # t"]
    by (cases "matchAttrHere name (h # t)") auto
  moreover have "searchAttr name t = None" using Cons by simp
  ultimately show ?case by simp
qed

text \<open>The lookup gives the empty string where the text \<open>name="\<close> does not occur, and what
  follows the first \<open>name="\<close> up to the next double quote where it does, whatever stands
  before that \<open>name\<close>.\<close>

lemma extractAttr_no_occurrence:
  "\<not> includesStr attrs (attrPattern name) \<Longrightarrow> extractAttr attrs name = []"
  by (simp add: extractAttr_def searchAttr_absent)

lemma takeWhile_to_quote:
  "dquote \<notin> set v \<Longrightarrow> takeWhile (\<lambda>c. c \<noteq> dquote) (v @ dquote # post) = v"
  by (induction v) auto

lemma dropWhile_to_quote:
  "dquote \<notin> set v \<Longrightarrow> dropWhile (\<lambda>c. c \<noteq> dquote) (v @ dquote # post) = dquote # post"
  by (induction v) auto

lemma matchAttrHere_value:
  "dquote \<notin> set v \<Longrightarrow> matchAttrHere name (attrPattern name @ v @ dquote # post) = Some v"
  by (simp add: matchAttrHere_def attrPattern_def takeWhile_to_quote dropWhile_to_quote)

lemma searchAttr_here: "matchAttrHere name s = Some v \<Longrightarrow> searchAttr name s = Some v"
  by (cases s) simp_all

lemma searchAttr_first:
  "firstOccurrence name attrs pre v post \<Longrightarrow> searchAttr name attrs = Some v"
proof (induction pre arbitrary: attrs)
  case Nil
  then show ?case by (simp add: firstOccurrence_def searchAttr_here matchAttrHere_value)
next
  case (Cons p pre)
  let ?pat = "attrPattern name"
  from Cons.prems have a: "attrs = p # (pre @ ?pat @ v @ [dquote] @ post)"
    and q: "dquote \<notin> set v"
    and n: "\<not> includesStr ((p # pre) @ butlast ?pat) ?pat"
    by (simp_all add: firstOccurrence_def)
  have pat: "?pat = butlast ?pat @ [dquote]" by (simp add: attrPattern_def butlast_append)
  have "matchAttrHere name attrs = None"
  proof (cases "matchAttrHere name attrs")
    case (Some w)
    then have "prefix ?pat attrs" by (rule matchAttrHere_prefix)
    moreover have "attrs = ((p # pre) @ butlast ?pat) @ (dquote # v @ [dquote] @ post)"
      using a pat by (metis append.assoc append_Cons append_Nil)
    moreover have "length ?pat \<le> length ((p # pre) @ butlast ?pat)" by simp
    ultimately have "prefix ?pat ((p # pre) @ butlast ?pat)"
      by (metis prefix_length_prefix prefixI)
    then have "includesStr ((p # pre) @ butlast ?pat) ?pat" by (rule includesStr_prefix)
    with n show ?thesis by simp
  qed simp
  moreover have "searchAttr name (pre @ ?pat @ v @ [dquote] @ post) = Some v"
  proof (rule Cons.IH)
    from n have "\<not> includesStr (pre @ butlast ?pat) ?pat" by simp
    with q show "firstOccurrence name (pre @ ?pat @ v @ [dquote] @ post) pre v post"
      by (simp add: firstOccurrence_def)
  qed
  ultimately show ?case by (simp add: a)
qed

lemma extractAttr_first_occurrence:
  "firstOccurrence name attrs pre v post \<Longrightarrow> extractAttr attrs name = v"
  by (auto simp: extractAttr_def dest: searchAttr_first)

declare parseLoop.simps [simp del]

lemma execTag_close: "execTag (''</node>'' @ xml) = Some (CloseTag, xml)"
  by (simp add: matchOpenHere_def matchCloseHere_def)

lemma parseLoop_step:
  "execTag xml = Some (tok, rest) \<Longrightarrow> parseLoop xml st = parseLoop rest (step tok st)"
  by (subst parseLoop.simps) simp

text \<open>
  Claim C6. A closing token met while the stack is empty changes nothing: the loop body
  returns the same forest and the same empty stack, and the loop goes on with the rest of
  the input from that state; the parser has no error result. Any closing token leaves the
  forest as it is. In particular a stray \<open></node>\<close> in front of an input does not change
  what is parsed.
\<close>

theorem stray_close_ignored:
  "step CloseTag (elements, []) = (elements, []) \<and>
   fst (step CloseTag (elements, stack)) = elements \<and>
   (execTag xml = Some (CloseTag, rest) \<longrightarrow>
      parseLoop xml (elements, []) = parseLoop rest (elements, [])) \<and>
   parseLoop (''</node>'' @ xml) (elements, []) = parseLoop xml (elements, []) \<and>
   parseUiAutomatorXml (''</node>'' @ xml) = parseUiAutomatorXml xml"
proof -
  have a: "execTag xml = Some (CloseTag, rest) \<longrightarrow>
      parseLoop xml (elements, []) = parseLoop rest (elements, [])"
    by (simp add: parseLoop_step)
  have b: "parseLoop (''</node>'' @ xml) (els, []) = parseLoop xml (els, [])" for els
    using parseLoop_step[OF execTag_close, of xml "(els, [])"] by simp
  show ?thesis using a b[of elements] b[of "[]"]
    by (simp add: parseUiAutomatorXml_def)
qed

text \<open>The theorem at a stray closing tag followed by one self-closing tag.\<close>

theorem stray_close_ignored_witness:
  "parseLoop ''</node><node />'' ([], []) = parseLoop ''<node />'' ([], []) \<and>
   fst (parseLoop ''<node />'' ([], [])) = [buildElement []]"
proof -
  have e: "execTag ''</node><node />'' = Some (CloseTag, ''<node />'')"
    by (simp add: matchOpenHere_def matchCloseHere_def)
  have "fst (parseLoop ''<node />'' ([], [])) = [buildElement []]"
    by code_simp
  with stray_close_ignored[of "[]" "[]" "''</node><node />''" "''<node />''"] e
  show ?thesis by simp
qed

text \<open>Every node of the parsed forest is, but for its children, the object built from the
  attribute text of one of the tags of the input.\<close>

declare tagMatches.simps [simp del]

lemma preorderFrom_append:
  "preorderFrom d (xs @ ys) = preorderFrom d xs @ preorderFrom d ys"
  by (induction xs) simp_all

lemma preorder_append: "preorder (xs @ ys) = preorder xs @ preorder ys"
  by (simp add: preorder_def preorderFrom_append)

lemma preorder_Cons: "preorder (el # rest) = el # preorder (children el) @ preorder rest"
  using preorderFrom_nodes[of "Suc 0" "children el" 0] by (simp add: preorder_def)

lemma preorder_Nil: "preorder [] = []"
  by (simp add: preorder_def)

lemma preorder_update:
  assumes "i < length forest"
  shows "set (preorder (forest[i := x])) \<subseteq> set (preorder forest) \<union> set (preorder [x])"
    and "set (preorder [forest ! i]) \<subseteq> set (preorder forest)"
proof -
  have f: "forest = take i forest @ [forest ! i] @ drop (Suc i) forest"
    using assms by (simp add: id_take_nth_drop)
  have u: "forest[i := x] = take i forest @ [x] @ drop (Suc i) forest"
    using assms by (simp add: upd_conv_take_nth_drop)
  have pf: "preorder forest =
      preorder (take i forest) @ preorder [forest ! i] @ preorder (drop (Suc i) forest)"
    by (subst f) (simp only: preorder_append)
  have pu: "preorder (forest[i := x]) =
      preorder (take i forest) @ preorder [x] @ preorder (drop (Suc i) forest)"
    by (simp only: u preorder_append)
  show "set (preorder (forest[i := x])) \<subseteq> set (preorder forest) \<union> set (preorder [x])"
    by (simp only: pf pu) auto
  have "set (preorder [forest ! i]) \<subseteq>
        set (preorder (take i forest) @ preorder [forest ! i] @ preorder (drop (Suc i) forest))"
    by auto
  then show "set (preorder [forest ! i]) \<subseteq> set (preorder forest)"
    by (simp only: pf[symmetric])
qed

lemma setChildren_setChildren: "setChildren (setChildren e ch) ch' = setChildren e ch'"
  by (simp add: setChildren_def)

lemma children_setChildren: "children (setChildren e ch) = ch"
  by (simp add: setChildren_def)

lemma shallowNodes_single:
  "shallowNodes [setChildren e ch] = insert (setChildren e []) (shallowNodes ch)"
  by (simp add: shallowNodes_def preorder_Cons preorder_Nil children_setChildren
        setChildren_setChildren)

lemma shallowNodes_nth:
  "i < length forest \<Longrightarrow>
   insert (setChildren (forest ! i) []) (shallowNodes (children (forest ! i))) \<subseteq> shallowNodes forest"
proof -
  assume a: "i < length forest"
  have "set (preorder [forest ! i]) \<subseteq> set (preorder forest)"
    by (rule preorder_update(2)[OF a])
  then have "(\<lambda>e. setChildren e []) ` set (preorder [forest ! i]) \<subseteq> shallowNodes forest"
    unfolding shallowNodes_def by (rule image_mono)
  then show ?thesis
    by (simp add: shallowNodes_def preorder_Cons preorder_Nil)
qed

lemma shallowNodes_update:
  "i < length forest \<Longrightarrow>
   shallowNodes (forest[i := x]) \<subseteq> shallowNodes forest \<union> shallowNodes [x]"
proof -
  assume a: "i < length forest"
  have "(\<lambda>e. setChildren e []) ` set (preorder (forest[i := x])) \<subseteq>
        (\<lambda>e. setChildren e []) ` (set (preorder forest) \<union> set (preorder [x]))"
    by (rule image_mono) (rule preorder_update(1)[OF a])
  then show ?thesis by (simp add: shallowNodes_def image_Un)
qed

lemma shallowNodes_append:
  "shallowNodes (xs @ ys) = shallowNodes xs \<union> shallowNodes ys"
  by (simp add: shallowNodes_def preorder_append image_Un)

lemma shallowNodes_pushChild:
  "shallowNodes (pushChild p el forest) \<subseteq> shallowNodes forest \<union> shallowNodes [el]"
proof (induction p el forest rule: pushChild.induct)
  case (1 element forest)
  show ?case by simp
next
  case (2 i element forest)
  show ?case
  proof (cases "i < length forest")
    case True
    let ?x = "setChildren (forest ! i) (children (forest ! i) @ [element])"
    have "shallowNodes (forest[i := ?x]) \<subseteq> shallowNodes forest \<union> shallowNodes [?x]"
      by (rule shallowNodes_update[OF True])
    moreover have "shallowNodes [?x] =
        insert (setChildren (forest ! i) []) (shallowNodes (children (forest ! i)) \<union> shallowNodes [element])"
      by (simp only: shallowNodes_single shallowNodes_append)
    ultimately show ?thesis using shallowNodes_nth[OF True] True by auto
  next
    case False
    then show ?thesis by simp
  qed
next
  case (3 i j p element forest)
  show ?case
  proof (cases "i < length forest")
    case True
    let ?x = "setChildren (forest ! i) (pushChild (j # p) element (children (forest ! i)))"
    have "shallowNodes (forest[i := ?x]) \<subseteq> shallowNodes forest \<union> shallowNodes [?x]"
      by (rule shallowNodes_update[OF True])
    moreover have "shallowNodes [?x] =
        insert (setChildren (forest ! i) [])
          (shallowNodes (pushChild (j # p) element (children (forest ! i))))"
      by (simp only: shallowNodes_single)
    moreover have "shallowNodes (pushChild (j # p) element (children (forest ! i))) \<subseteq>
        shallowNodes (children (forest ! i)) \<union> shallowNodes [element]"
      by (rule "3.IH"[OF True])
    ultimately show ?thesis using shallowNodes_nth[OF True] True by auto
  next
    case False
    then show ?thesis by simp
  qed
qed

lemma shallowNodes_buildElement: "shallowNodes [buildElement attrs] = {buildElement attrs}"
  by (simp add: shallowNodes_def preorder_Cons preorder_Nil buildElement_def setChildren_def)

lemma shallowNodes_step:
  "shallowNodes (fst (step tok (elements, stack))) \<subseteq> shallowNodes elements \<union> builtFrom [tok]"
proof (cases tok)
  case CloseTag
  then show ?thesis by simp
next
  case (OpenTag attrs isSelfClosing)
  have b: "shallowNodes [buildElement attrs] \<subseteq> builtFrom [tok]"
    unfolding shallowNodes_buildElement by (auto simp: builtFrom_def OpenTag)
  show ?thesis
  proof (cases "stack = []")
    case True
    then show ?thesis using b by (auto simp: OpenTag shallowNodes_append)
  next
    case False
    then have "fst (step tok (elements, stack)) = pushChild (last stack) (buildElement attrs) elements"
      by (simp add: OpenTag Let_def)
    then show ?thesis using shallowNodes_pushChild[of "last stack" "buildElement attrs" elements] b
      by auto
  qed
qed

lemma builtFrom_Cons: "builtFrom (tok # toks) = builtFrom [tok] \<union> builtFrom toks"
  by (auto simp: builtFrom_def)

lemma shallowNodes_parseLoop:
  "shallowNodes (fst (parseLoop xml st)) \<subseteq> shallowNodes (fst st) \<union> builtFrom (tagMatches xml)"
proof (induction xml st rule: parseLoop.induct)
  case (1 xml st)
  show ?case
  proof (cases "execTag xml")
    case None
    then show ?thesis by (subst parseLoop.simps) simp
  next
    case (Some m)
    obtain tok rest where m: "m = (tok, rest)" by (cases m) auto
    obtain elements stack where st: "st = (elements, stack)" by (cases st) auto
    have l: "parseLoop xml st = parseLoop rest (step tok st)"
      using Some m by (simp add: parseLoop_step)
    have t: "tagMatches xml = tok # tagMatches rest"
      using Some m by (subst tagMatches.simps) simp
    have "shallowNodes (fst (parseLoop rest (step tok st))) \<subseteq>
            shallowNodes (fst (step tok st)) \<union> builtFrom (tagMatches rest)"
      using "1.IH"[OF Some m[symmetric]] by simp
    moreover have "shallowNodes (fst (step tok st)) \<subseteq> shallowNodes (fst st) \<union> builtFrom [tok]"
      unfolding st using shallowNodes_step by simp
    ultimately show ?thesis
      unfolding l t builtFrom_Cons[of tok "tagMatches rest"] by blast
  qed
qed

lemma parsed_nodes_built:
  "e \<in> set (preorder (parseUiAutomatorXml xml)) \<Longrightarrow>
   \<exists>attrs isSelfClosing. OpenTag attrs isSelfClosing \<in> set (tagMatches xml) \<and>
      setChildren e [] = buildElement attrs"
proof -
  assume "e \<in> set (preorder (parseUiAutomatorXml xml))"
  then have "setChildren e [] \<in> shallowNodes (fst (parseLoop xml ([], [])))"
    by (simp add: shallowNodes_def parseUiAutomatorXml_def)
  with shallowNodes_parseLoop[of xml "([], [])"]
  have "setChildren e [] \<in> builtFrom (tagMatches xml)"
    by (auto simp: shallowNodes_def preorder_Nil)
  then show ?thesis by (auto simp: builtFrom_def)
qed


text \<open>
  Claim C5 against the code. The claim reads a tag by its attributes: those that the tag
  does not carry give the empty string and \<open>false\<close>, and a flag is true exactly when the
  value of its attribute is \<open>true\<close>. \<^verbatim>\<open>extractAttr\<close>, which its comment says extracts an
  attribute value by name, takes the first place where the text \<open>name="\<close> stands, also
  inside a longer name and across the end of a value.
  \<^item> A tag that carries \<open>class\<close> and \<open>long-clickable="true"\<close> and no \<open>clickable\<close> is parsed to
    a node with \<open>clickable\<close> true.
  \<^item> A tag that carries \<open>long-clickable="true"\<close> before \<open>clickable="false"\<close> gives a node with
    \<open>clickable\<close> true.
  \<^item> A tag that carries \<open>hint-text\<close> and no \<open>text\<close> gets the hint as its text.
  \<^item> A tag with the attributes of a device dump in their order, whose \<open>text\<close> is
    \<open>clickable=\<close> and whose \<open>clickable\<close> is \<open>true\<close>, gives a node with \<open>clickable\<close> false: the
    lookup reads from the end of the text to the next double quote.
\<close>

theorem extractAttr_inside_longer_name:
  "map_of [(''class'', ''android.widget.Button''), (''long-clickable'', ''true'')] ''clickable''
     = None \<and>
   parseUiAutomatorXml
     (''<hierarchy><node '' @
      attrText [(''class'', ''android.widget.Button''), (''long-clickable'', ''true'')] @
      '' /></hierarchy>'')
     = [UiElement [] [] [] ''android.widget.Button'' []
          \<lparr>bounds_x = Finite 0, bounds_y = Finite 0,
           bounds_width = Finite 0, bounds_height = Finite 0\<rparr>
          True False False []] \<and>
   map_of [(''long-clickable'', ''true''), (''clickable'', ''false'')] ''clickable''
     = Some ''false'' \<and>
   clickable (buildElement
     (attrText [(''long-clickable'', ''true''), (''clickable'', ''false'')])) \<and>
   map_of [(''hint-text'', ''Search'')] ''text'' = None \<and>
   text_attr (buildElement (attrText [(''hint-text'', ''Search'')])) = ''Search'' \<and>
   map_of [(''index'', ''0''), (''text'', ''clickable=''), (''resource-id'', []),
           (''class'', ''android.widget.TextView''), (''package'', ''com.example''),
           (''content-desc'', []), (''checkable'', ''false''), (''checked'', ''false''),
           (''clickable'', ''true''), (''enabled'', ''true''), (''focusable'', ''false''),
           (''focused'', ''false''), (''scrollable'', ''false''),
           (''long-clickable'', ''false''), (''password'', ''false''),
           (''selected'', ''false''), (''bounds'', ''[0,0][100,50]'')] ''clickable''
     = Some ''true'' \<and>
   \<not> clickable (buildElement (attrText
          [(''index'', ''0''), (''text'', ''clickable=''), (''resource-id'', []),
           (''class'', ''android.widget.TextView''), (''package'', ''com.example''),
           (''content-desc'', []), (''checkable'', ''false''), (''checked'', ''false''),
           (''clickable'', ''true''), (''enabled'', ''true''), (''focusable'', ''false''),
           (''focused'', ''false''), (''scrollable'', ''false''),
           (''long-clickable'', ''false''), (''password'', ''false''),
           (''selected'', ''false''), (''bounds'', ''[0,0][100,50]'')]))"
proof -
  let ?dump = "[(''index'', ''0''), (''text'', ''clickable=''), (''resource-id'', []),
           (''class'', ''android.widget.TextView''), (''package'', ''com.example''),
           (''content-desc'', []), (''checkable'', ''false''), (''checked'', ''false''),
           (''clickable'', ''true''), (''enabled'', ''true''), (''focusable'', ''false''),
           (''focused'', ''false''), (''scrollable'', ''false''),
           (''long-clickable'', ''false''), (''password'', ''false''),
           (''selected'', ''false''), (''bounds'', ''[0,0][100,50]'')]"
  have "parseUiAutomatorXml
     (''<hierarchy><node '' @
      attrText [(''class'', ''android.widget.Button''), (''long-clickable'', ''true'')] @
      '' /></hierarchy>'')
     = [UiElement [] [] [] ''android.widget.Button'' []
          \<lparr>bounds_x = Finite 0, bounds_y = Finite 0,
           bounds_width = Finite 0, bounds_height = Finite 0\<rparr>
          True False False []]"
    by code_simp
  moreover have "extractAttr
      (attrText [(''long-clickable'', ''true''), (''clickable'', ''false'')]) ''clickable''
      = ''true''"
    by code_simp
  moreover have "extractAttr (attrText [(''hint-text'', ''Search'')]) ''text'' = ''Search''"
    by code_simp
  moreover have "extractAttr (attrText ?dump) ''clickable'' = '' resource-id=''"
    by code_simp
  ultimately show ?thesis
    by (simp add: buildElement_def)
qed

subsection \<open>Capture step\<close>

text \<open>What is left after the trailer is removed and the white space trimmed is a
  contiguous part of the dump, so a dump without \<open><hierarchy\<close> always gives the error.\<close>

lemma stripTrailer_prefix: "prefix (stripTrailer xml) xml"
  by (induction xml) simp_all

lemma dropWhileEnd_part: "t = dropWhileEnd P t @ rev (takeWhile P (rev t))"
proof -
  have "rev (takeWhile P (rev t) @ dropWhile P (rev t)) = t"
    by (simp only: takeWhile_dropWhile_id rev_rev_ident)
  then show ?thesis by (simp only: rev_append dropWhileEnd_def)
qed

lemma trim_part: "\<exists>a b. s = a @ trim s @ b"
proof -
  let ?t = "dropWhile isSpace s"
  have "?t = trim s @ rev (takeWhile isSpace (rev ?t))"
    unfolding trim_def by (rule dropWhileEnd_part)
  moreover have "s = takeWhile isSpace s @ ?t" by simp
  ultimately have "s = takeWhile isSpace s @ trim s @ rev (takeWhile isSpace (rev ?t))"
    by metis
  then show ?thesis by blast
qed

lemma cleaned_part: "includesStr (trim (stripTrailer xml)) sub \<Longrightarrow> includesStr xml sub"
proof -
  assume "includesStr (trim (stripTrailer xml)) sub"
  then obtain p q where 1: "trim (stripTrailer xml) = p @ sub @ q"
    unfolding includesStr_iff by blast
  obtain a b where 2: "stripTrailer xml = a @ trim (stripTrailer xml) @ b"
    using trim_part by blast
  obtain r where 3: "xml = stripTrailer xml @ r"
    using stripTrailer_prefix[of xml] by (auto simp: prefix_def)
  have "xml = (a @ p) @ sub @ (q @ b @ r)"
    by (subst 3, subst 2, subst 1) simp
  then show ?thesis unfolding includesStr_iff by blast
qed

lemma getUiHierarchy_no_marker:
  "\<not> includesStr xml ''<hierarchy'' \<Longrightarrow>
   getUiHierarchy xml =
     Inl (Error (''UIAutomator dump returned unexpected output: '' @
                 take 200 (trim (stripTrailer xml))))"
  using cleaned_part[of xml "''<hierarchy''"] by (auto simp: getUiHierarchy_def Let_def)

lemma getUiHierarchy_marker:
  "includesStr (trim (stripTrailer xml)) ''<hierarchy'' \<Longrightarrow>
   getUiHierarchy xml = Inr (parseUiAutomatorXml (trim (stripTrailer xml)))"
  by (simp add: getUiHierarchy_def Let_def)

text \<open>
  Claim C4 fails on the code for the misspelled trailer. The comment in the source says
  that the device tool appends \<open>UI hierchary dumped to: /dev/tty\<close>, yet the pattern
  \<open>hierarch?y\<close> matches \<open>hierarchy\<close> and \<open>hierarcy\<close> only. For a dump without \<open><hierarchy\<close>
  that ends in the misspelled line, the line stays in the excerpt of the error; with the
  correct spelling it is removed.
\<close>

theorem getUiHierarchy_misspelled_trailer:
  "getUiHierarchy (''error: no devices'' @ [CHR 0x0A] @ ''UI hierchary dumped to: /dev/tty'') =
     Inl (Error (''UIAutomator dump returned unexpected output: error: no devices'' @ [CHR 0x0A] @
                 ''UI hierchary dumped to: /dev/tty'')) \<and>
   getUiHierarchy (''error: no devices'' @ [CHR 0x0A] @ ''UI hierarchy dumped to: /dev/tty'') =
     Inl (Error ''UIAutomator dump returned unexpected output: error: no devices'')"
  by code_simp

subsection \<open>The read-only operations over the store\<close>

text \<open>Each walk changes only its own result array and cells it allocates itself.\<close>

lemma modifies_refl: "modifies S h h"
  by (simp add: modifies_def)

lemma modifies_trans:
  assumes "modifies S h h1" and "modifies T h1 h2"
    and "\<And>a. a \<in> T \<Longrightarrow> a \<in> S \<or> nextAddr h \<le> a"
  shows "modifies S h h2"
  unfolding modifies_def
proof (intro conjI allI impI)
  show "nextAddr h \<le> nextAddr h2" using assms(1,2) by (simp add: modifies_def)
next
  fix a assume a: "a < nextAddr h \<and> a \<notin> S"
  then have "a \<notin> T" using assms(3)[of a] by auto
  moreover have "a < nextAddr h1" using a assms(1) by (simp add: modifies_def)
  ultimately have "cells h2 a = cells h1 a" using assms(2) by (simp add: modifies_def)
  also have "\<dots> = cells h a" using a assms(1) by (simp add: modifies_def)
  finally show "cells h2 a = cells h a" .
qed

lemma modifies_same [trans]:
  "modifies S h h1 \<Longrightarrow> modifies S h1 h2 \<Longrightarrow> modifies S h h2"
  by (rule modifies_trans) auto

lemma modifies_alloc: "alloc c h = (a, h') \<Longrightarrow> modifies S h h' \<and> a = nextAddr h \<and> nextAddr h' = Suc a"
  by (auto simp: alloc_def modifies_def)

lemma modifies_pushRef: "pushRef r v h = Some h' \<Longrightarrow> modifies {r} h h' \<and> nextAddr h' = nextAddr h"
  by (auto simp: pushRef_def modifies_def split: option.splits)

lemma modifies_pushStr: "pushStr r v h = Some h' \<Longrightarrow> modifies {r} h h' \<and> nextAddr h' = nextAddr h"
  by (auto simp: pushStr_def modifies_def split: option.splits)

lemma modifies_pushStrIf:
  "pushStrIf c r v h = Some h' \<Longrightarrow> modifies {r} h h' \<and> nextAddr h' = nextAddr h"
  using modifies_pushStr[of r v h h'] by (auto simp: pushStrIf_def modifies_refl split: if_splits)

lemma findWalkH_modifies:
  "findWalkH fuel selector results elements i h = Some h' \<Longrightarrow> modifies {results} h h'"
proof (induction fuel arbitrary: elements i h h')
  case 0
  then show ?case by simp
next
  case (Suc fuel)
  from Suc.prems obtain refs where refs: "getRefs h elements = Some refs"
    by (auto split: Option.bind_splits)
  show ?case
  proof (cases "i < length refs")
    case False
    with Suc.prems refs show ?thesis by (simp add: modifies_refl)
  next
    case True
    with Suc.prems refs obtain el h1 el1 h2 where
      h1: "(if selectorMatchH selector el then pushRef results (refs ! i) h else Some h) = Some h1"
      and w1: "findWalkH fuel selector results (h_children el1) 0 h1 = Some h2"
      and w2: "findWalkH fuel selector results elements (i + 1) h2 = Some h'"
      by (auto split: Option.bind_splits)
    have "modifies {results} h h1"
      using h1 modifies_pushRef[of results "refs ! i" h h1] by (auto simp: modifies_refl split: if_splits)
    moreover have "modifies {results} h1 h2" using w1 by (rule Suc.IH)
    moreover have "modifies {results} h2 h'" using w2 by (rule Suc.IH)
    ultimately show ?thesis by (blast intro: modifies_same)
  qed
qed

lemma compactVisitH_modifies:
  assumes "compactVisitH lines depth ref h = Some h'"
  shows "modifies {lines} h h'"
proof -
  from assms obtain el where el: "getObject h ref = Some el"
    by (auto simp: compactVisitH_def split: Option.bind_splits)
  obtain parts h0 where a: "alloc (StrArray [shortenClassName (h_class el)]) h = (parts, h0)"
    by (cases "alloc (StrArray [shortenClassName (h_class el)]) h") auto
  from assms el a have "\<exists>h1 h2 h3 h4 h5 h6 s2 s3 s4 s5 s6 s7 line.
       pushStrIf (h_text el \<noteq> []) parts s2 h0 = Some h1 \<and>
       pushStr parts s3 h1 = Some h2 \<and>
       pushStrIf (h_resource_id el \<noteq> []) parts s4 h2 = Some h3 \<and>
       pushStrIf (h_content_desc el \<noteq> []) parts s5 h3 = Some h4 \<and>
       pushStrIf (h_clickable el) parts s6 h4 = Some h5 \<and>
       pushStrIf (h_scrollable el) parts s7 h5 = Some h6 \<and>
       pushStr lines line h6 = Some h'"
    by (simp add: compactVisitH_def Let_def split: Option.bind_splits) blast
  then obtain h1 h2 h3 h4 h5 h6 s2 s3 s4 s5 s6 s7 line where
    p: "pushStrIf (h_text el \<noteq> []) parts s2 h0 = Some h1"
       "pushStr parts s3 h1 = Some h2"
       "pushStrIf (h_resource_id el \<noteq> []) parts s4 h2 = Some h3"
       "pushStrIf (h_content_desc el \<noteq> []) parts s5 h3 = Some h4"
       "pushStrIf (h_clickable el) parts s6 h4 = Some h5"
       "pushStrIf (h_scrollable el) parts s7 h5 = Some h6"
    and l: "pushStr lines line h6 = Some h'"
    by blast
  from a have m0: "modifies {lines} h h0" and pa: "parts = nextAddr h"
    using modifies_alloc[of _ h parts h0 "{lines}"] by auto
  have "modifies {parts} h0 h1" using p(1) modifies_pushStrIf by blast
  also have "modifies {parts} h1 h2" using p(2) modifies_pushStr by blast
  also have "modifies {parts} h2 h3" using p(3) modifies_pushStrIf by blast
  also have "modifies {parts} h3 h4" using p(4) modifies_pushStrIf by blast
  also have "modifies {parts} h4 h5" using p(5) modifies_pushStrIf by blast
  also have "modifies {parts} h5 h6" using p(6) modifies_pushStrIf by blast
  finally have m6: "modifies {parts} h0 h6" .
  from l have ml: "modifies {lines} h6 h'" using modifies_pushStr by blast
  have "modifies {lines} h h6"
    using m0 m6 by (rule modifies_trans) (simp add: pa)
  then show ?thesis using ml by (rule modifies_same)
qed

lemma compactWalkH_modifies:
  "compactWalkH fuel maxDepth lines elements depth h = Some h' \<Longrightarrow> modifies {lines} h h'"
  "compactLoopH fuel maxDepth lines elements depth i h = Some h' \<Longrightarrow> modifies {lines} h h'"
proof (induction fuel arbitrary: elements depth i h h')
  case 0
  { case 1 then show ?case by simp }
  { case 2 then show ?case by simp }
next
  case (Suc fuel)
  { case 1
    then show ?case using Suc.IH(2) by (auto simp: modifies_refl split: if_splits) }
  { case 2
    from 2 obtain refs where refs: "getRefs h elements = Some refs"
      by (auto split: Option.bind_splits)
    show ?case
    proof (cases "i < length refs")
      case False
      with 2 refs show ?thesis by (simp add: modifies_refl)
    next
      case True
      with 2 refs obtain h1 el1 h2 where
        v: "compactVisitH lines depth (refs ! i) h = Some h1"
        and w1: "compactWalkH fuel maxDepth lines (h_children el1) (depth + 1) h1 = Some h2"
        and w2: "compactLoopH fuel maxDepth lines elements depth (i + 1) h2 = Some h'"
        by (auto split: Option.bind_splits)
      have "modifies {lines} h h1" using v by (rule compactVisitH_modifies)
      moreover have "modifies {lines} h1 h2" using w1 by (rule Suc.IH(1))
      moreover have "modifies {lines} h2 h'" using w2 by (rule Suc.IH(2))
      ultimately show ?thesis by (blast intro: modifies_same)
    qed }
qed

lemma flattenVisitH_modifies:
  assumes "flattenVisitH result depth ref h = Some h'"
  shows "modifies {result} h h'"
proof -
  from assms obtain el where el: "getObject h ref = Some el"
    by (auto simp: flattenVisitH_def split: Option.bind_splits)
  obtain e h0 where a0: "alloc (RefArray []) h = (e, h0)"
    by (cases "alloc (RefArray []) h") auto
  let ?obj = "ObjectCell (HObject (h_resource_id el) (h_text el) (h_content_desc el)
                      (h_class el) (h_package el) (h_bounds el) (h_clickable el) (h_enabled el)
                      (h_scrollable el) e (Some depth))"
  obtain r h1 where a1: "alloc ?obj h0 = (r, h1)"
    by (cases "alloc ?obj h0") auto
  from assms el a0 a1 have p: "pushRef result r h1 = Some h'"
    by (simp add: flattenVisitH_def)
  have "modifies {result} h h0" using a0 modifies_alloc by blast
  moreover have "modifies {result} h0 h1" using a1 modifies_alloc by blast
  moreover have "modifies {result} h1 h'" using p modifies_pushRef by blast
  ultimately show ?thesis by (blast intro: modifies_same)
qed

lemma flattenWalkH_modifies:
  "flattenWalkH fuel maxDepth result elements depth h = Some h' \<Longrightarrow> modifies {result} h h'"
  "flattenLoopH fuel maxDepth result elements depth i h = Some h' \<Longrightarrow> modifies {result} h h'"
proof (induction fuel arbitrary: elements depth i h h')
  case 0
  { case 1 then show ?case by simp }
  { case 2 then show ?case by simp }
next
  case (Suc fuel)
  { case 1
    then show ?case using Suc.IH(2) by (auto simp: modifies_refl split: if_splits) }
  { case 2
    from 2 obtain refs where refs: "getRefs h elements = Some refs"
      by (auto split: Option.bind_splits)
    show ?case
    proof (cases "i < length refs")
      case False
      with 2 refs show ?thesis by (simp add: modifies_refl)
    next
      case True
      with 2 refs obtain h1 el1 h2 where
        v: "flattenVisitH result depth (refs ! i) h = Some h1"
        and w1: "flattenWalkH fuel maxDepth result (h_children el1) (depth + 1) h1 = Some h2"
        and w2: "flattenLoopH fuel maxDepth result elements depth (i + 1) h2 = Some h'"
        by (auto split: Option.bind_splits)
      have "modifies {result} h h1" using v by (rule flattenVisitH_modifies)
      moreover have "modifies {result} h1 h2" using w1 by (rule Suc.IH(1))
      moreover have "modifies {result} h2 h'" using w2 by (rule Suc.IH(2))
      ultimately show ?thesis by (blast intro: modifies_same)
    qed }
qed


lemma findElementsH_modifies:
  "findElementsH fuel roots selector h = Some (results, h') \<Longrightarrow>
   modifies {} h h' \<and> results = nextAddr h"
proof -
  assume a: "findElementsH fuel roots selector h = Some (results, h')"
  obtain r h0 where al: "alloc (RefArray []) h = (r, h0)" by (cases "alloc (RefArray []) h") auto
  with a have r: "r = results" and w: "findWalkH fuel selector results roots 0 h0 = Some h'"
    by (auto simp: findElementsH_def split: Option.bind_splits)
  from al have m0: "modifies {} h h0" and ra: "r = nextAddr h"
    using modifies_alloc[of _ h r h0 "{}"] by auto
  have "modifies {} h h'"
    using m0 findWalkH_modifies[OF w] by (rule modifies_trans) (simp add: r[symmetric] ra)
  then show ?thesis using r ra by simp
qed

lemma formatCompactTreeH_modifies:
  "formatCompactTreeH fuel roots maxDepthArg h = Some (text, h') \<Longrightarrow> modifies {} h h'"
proof -
  assume a: "formatCompactTreeH fuel roots maxDepthArg h = Some (text, h')"
  obtain r h0 where al: "alloc (StrArray []) h = (r, h0)" by (cases "alloc (StrArray []) h") auto
  with a obtain k where w: "compactWalkH fuel k r roots 0 h0 = Some h'"
    by (auto simp: formatCompactTreeH_def Let_def split: Option.bind_splits)
  from al have m0: "modifies {} h h0" and ra: "r = nextAddr h"
    using modifies_alloc[of _ h r h0 "{}"] by auto
  show "modifies {} h h'"
    using m0 compactWalkH_modifies(1)[OF w] by (rule modifies_trans) (simp add: ra)
qed

lemma getObject_modifies:
  "modifies S h h' \<Longrightarrow> a < nextAddr h \<Longrightarrow> a \<notin> S \<Longrightarrow> getObject h' a = getObject h a"
  by (simp add: modifies_def getObject_def)

lemma getRefs_modifies:
  "modifies S h h' \<Longrightarrow> a < nextAddr h \<Longrightarrow> a \<notin> S \<Longrightarrow> getRefs h' a = getRefs h a"
  by (simp add: modifies_def getRefs_def)

lemma getBounds_modifies:
  "modifies S h h' \<Longrightarrow> a < nextAddr h \<Longrightarrow> a \<notin> S \<Longrightarrow> getBounds h' a = getBounds h a"
  by (simp add: modifies_def getBounds_def)

lemma getStrs_modifies:
  "modifies S h h' \<Longrightarrow> a < nextAddr h \<Longrightarrow> a \<notin> S \<Longrightarrow> getStrs h' a = getStrs h a"
  by (simp add: modifies_def getStrs_def)

lemma freshRecord_modifies:
  assumes "freshRecord h result r" and "modifies {result} h h'"
  shows "freshRecord h' result r"
proof -
  from assms(1) obtain obj where o: "getObject h r = Some obj"
    and r: "result < r" "r < nextAddr h"
    and c: "result < h_children obj" "h_children obj < nextAddr h"
      "getRefs h (h_children obj) = Some []" "h_depth obj \<noteq> None"
    by (auto simp: freshRecord_def split: option.splits)
  have "getObject h' r = Some obj"
    using getObject_modifies[OF assms(2), of r] r o by simp
  moreover have "getRefs h' (h_children obj) = Some []"
    using getRefs_modifies[OF assms(2), of "h_children obj"] c by simp
  moreover have "nextAddr h \<le> nextAddr h'" using assms(2) by (simp add: modifies_def)
  ultimately show ?thesis using r c by (simp add: freshRecord_def)
qed

lemma freshRecords_visit:
  assumes "freshRecords h result" and "result < nextAddr h"
    and "flattenVisitH result depth ref h = Some h'"
  shows "freshRecords h' result"
proof -
  from assms(3) obtain el where el: "getObject h ref = Some el"
    by (auto simp: flattenVisitH_def split: Option.bind_splits)
  obtain e h0 where a0: "alloc (RefArray []) h = (e, h0)"
    by (cases "alloc (RefArray []) h") auto
  let ?obj = "HObject (h_resource_id el) (h_text el) (h_content_desc el)
                      (h_class el) (h_package el) (h_bounds el) (h_clickable el) (h_enabled el)
                      (h_scrollable el) e (Some depth)"
  obtain r h1 where a1: "alloc (ObjectCell ?obj) h0 = (r, h1)"
    by (cases "alloc (ObjectCell ?obj) h0") auto
  from assms(3) el a0 a1 have p: "pushRef result r h1 = Some h'"
    by (simp add: flattenVisitH_def)
  from assms(1) obtain refs where refs: "getRefs h result = Some refs"
    and old: "list_all (freshRecord h result) refs"
    by (auto simp: freshRecords_def split: option.splits)
  have e: "e = nextAddr h" and r: "r = Suc (nextAddr h)"
    using a0 a1 by (auto simp: alloc_def)
  have n': "nextAddr h' = Suc (Suc (nextAddr h))"
    using a0 a1 p by (auto simp: alloc_def pushRef_def split: option.splits)
  have refs': "getRefs h' result = Some (refs @ [r])"
    using a0 a1 p refs assms(2) by (auto simp: alloc_def pushRef_def getRefs_def split: option.splits)
  have obj': "getObject h' r = Some ?obj"
    using a0 a1 p assms(2) by (auto simp: alloc_def pushRef_def getRefs_def getObject_def split: option.splits)
  have emp': "getRefs h' e = Some []"
    using a0 a1 p assms(2) by (auto simp: alloc_def pushRef_def getRefs_def split: option.splits)
  have new: "freshRecord h' result r"
    unfolding freshRecord_def obj' using assms(2) emp' by (simp add: n' r e)
  have "list_all (freshRecord h' result) refs"
    using old freshRecord_modifies[OF _ flattenVisitH_modifies[OF assms(3)]]
    by (auto simp: list_all_iff)
  with new show ?thesis by (simp add: freshRecords_def refs')
qed

lemma freshRecords_walk:
  "flattenWalkH fuel maxDepth result elements depth h = Some h' \<Longrightarrow>
     freshRecords h result \<Longrightarrow> result < nextAddr h \<Longrightarrow> freshRecords h' result"
  "flattenLoopH fuel maxDepth result elements depth i h = Some h' \<Longrightarrow>
     freshRecords h result \<Longrightarrow> result < nextAddr h \<Longrightarrow> freshRecords h' result"
proof (induction fuel arbitrary: elements depth i h h')
  case 0
  { case 1 then show ?case by simp }
  { case 2 then show ?case by simp }
next
  case (Suc fuel)
  { case 1
    then show ?case using Suc.IH(2) by (auto split: if_splits) }
  { case 2
    from 2(1) obtain refs where refs: "getRefs h elements = Some refs"
      by (auto split: Option.bind_splits)
    show ?case
    proof (cases "i < length refs")
      case False
      with 2 refs show ?thesis by simp
    next
      case True
      with 2(1) refs obtain h1 el1 h2 where
        v: "flattenVisitH result depth (refs ! i) h = Some h1"
        and w1: "flattenWalkH fuel maxDepth result (h_children el1) (depth + 1) h1 = Some h2"
        and w2: "flattenLoopH fuel maxDepth result elements depth (i + 1) h2 = Some h'"
        by (auto split: Option.bind_splits)
      have f1: "freshRecords h1 result" using 2(2,3) v by (rule freshRecords_visit)
      have n1: "result < nextAddr h1"
        using flattenVisitH_modifies[OF v] 2(3) by (simp add: modifies_def)
      have f2: "freshRecords h2 result" using w1 f1 n1 by (rule Suc.IH(1))
      have n2: "result < nextAddr h2"
        using flattenWalkH_modifies(1)[OF w1] n1 by (simp add: modifies_def)
      show ?thesis using w2 f2 n2 by (rule Suc.IH(2))
    qed }
qed

lemma flattenHierarchyH_modifies:
  assumes "flattenHierarchyH fuel roots maxDepthArg h = Some (result, h')"
  shows "modifies {} h h' \<and> result = nextAddr h \<and> freshRecords h' result"
proof -
  obtain r h0 where al: "alloc (RefArray []) h = (r, h0)" by (cases "alloc (RefArray []) h") auto
  with assms obtain k where r: "r = result" and w: "flattenWalkH fuel k result roots 0 h0 = Some h'"
    by (auto simp: flattenHierarchyH_def Let_def split: Option.bind_splits)
  from al have m0: "modifies {} h h0" and ra: "r = nextAddr h"
    using modifies_alloc[of _ h r h0 "{}"] by auto
  have m: "modifies {} h h'"
    using m0 flattenWalkH_modifies(1)[OF w] by (rule modifies_trans) (simp add: r[symmetric] ra)
  have "freshRecords h0 result" "result < nextAddr h0"
    using al r by (auto simp: alloc_def freshRecords_def getRefs_def)
  with w have "freshRecords h' result" by (rule freshRecords_walk(1))
  with m r ra show ?thesis by simp
qed

text \<open>The forest that a store holds depends only on the cells below the bound.\<close>

declare reprNode.simps [simp del]

lemma forest_induct:
  assumes "P []" and "\<And>el rest. P (children el) \<Longrightarrow> P rest \<Longrightarrow> P (el # rest)"
  shows "P (forest :: UiElement list)"
proof (induction forest rule: measure_induct_rule[of "size_list size"])
  case (less f)
  show ?case
  proof (cases f)
    case Nil
    then show ?thesis using assms(1) by simp
  next
    case (Cons el rest)
    have "P (children el)"
      by (rule less) (use size_children[of el] in \<open>simp add: Cons\<close>)
    moreover have "P rest" by (rule less) (simp add: Cons)
    ultimately show ?thesis unfolding Cons by (rule assms(2))
  qed
qed

lemma getters_frame:
  assumes "\<forall>b<n. cells h' b = cells h b" and "a < n"
  shows "getObject h' a = getObject h a" "getRefs h' a = getRefs h a"
    "getBounds h' a = getBounds h a" "getStrs h' a = getStrs h a"
  using assms by (simp_all add: getObject_def getRefs_def getBounds_def getStrs_def)

lemma repr_frame:
  "reprNode n h a el \<Longrightarrow> \<forall>b<n. cells h' b = cells h b \<Longrightarrow> reprNode n h' a el"
  "reprNodes n h as els \<Longrightarrow> \<forall>b<n. cells h' b = cells h b \<Longrightarrow> reprNodes n h' as els"
proof (induction n h a el and n h as els rule: reprNode_reprNodes.induct)
  case (1 n h a el)
  from "1.prems"(1)[unfolded reprNode.simps[of n h a el]] obtain obj refs where
    a: "a < n" and o: "getObject h a = Some obj"
    and fields: "h_resource_id obj = resource_id el" "h_text obj = text_attr el"
      "h_content_desc obj = content_desc el" "h_class obj = class_attr el"
      "h_package obj = package el" "h_clickable obj = clickable el"
      "h_enabled obj = enabled el" "h_scrollable obj = scrollable el"
    and b: "h_bounds obj < n" "getBounds h (h_bounds obj) = Some (bounds el)"
    and c: "h_children obj < n" "getRefs h (h_children obj) = Some refs"
    and r: "reprNodes n h refs (children el)"
    by (auto split: option.splits)
  have "reprNodes n h' refs (children el)"
    using "1.IH"[OF o c(2)] r "1.prems"(2) by simp
  then show ?case
    unfolding reprNode.simps[of n h' a el]
    using a o fields b c getters_frame[OF "1.prems"(2)]
    by simp
qed (simp_all)

lemma repr_mono:
  "reprNode n h a el \<Longrightarrow> n \<le> m \<Longrightarrow> reprNode m h a el"
  "reprNodes n h as els \<Longrightarrow> n \<le> m \<Longrightarrow> reprNodes m h as els"
proof (induction n h a el and n h as els rule: reprNode_reprNodes.induct)
  case (1 n h a el)
  from "1.prems"(1)[unfolded reprNode.simps[of n h a el]] obtain obj refs where
    a: "a < n" and o: "getObject h a = Some obj"
    and fields: "h_resource_id obj = resource_id el" "h_text obj = text_attr el"
      "h_content_desc obj = content_desc el" "h_class obj = class_attr el"
      "h_package obj = package el" "h_clickable obj = clickable el"
      "h_enabled obj = enabled el" "h_scrollable obj = scrollable el"
    and b: "h_bounds obj < n" "getBounds h (h_bounds obj) = Some (bounds el)"
    and c: "h_children obj < n" "getRefs h (h_children obj) = Some refs"
    and r: "reprNodes n h refs (children el)"
    by (auto split: option.splits)
  have "reprNodes m h refs (children el)"
    using "1.IH"[OF o c(2)] r "1.prems"(2) by simp
  then show ?case
    unfolding reprNode.simps[of m h a el]
    using a o fields b c "1.prems"(2)
    by simp
qed (simp_all)

lemma reprForest_modifies:
  assumes "reprForest h roots forest" and "modifies {} h h1"
  shows "reprForest h1 roots forest"
proof -
  from assms(1) obtain refs where r: "roots < nextAddr h" "getRefs h roots = Some refs"
    "reprNodes (nextAddr h) h refs forest"
    by (auto simp: reprForest_def split: option.splits)
  have f: "\<forall>b<nextAddr h. cells h1 b = cells h b" and le: "nextAddr h \<le> nextAddr h1"
    using assms(2) by (simp_all add: modifies_def)
  have "reprNodes (nextAddr h1) h1 refs forest"
    using repr_mono(2)[OF repr_frame(2)[OF r(3) f] le] .
  moreover have "getRefs h1 roots = Some refs"
    using getters_frame(2)[OF f r(1)] r(2) by simp
  ultimately show ?thesis using r(1) le by (simp add: reprForest_def)
qed

lemma drop_Cons_nth:
  "drop i xs = a # as \<Longrightarrow> i < length xs \<and> xs ! i = a \<and> drop (Suc i) xs = as"
proof -
  assume d: "drop i xs = a # as"
  then have l: "i < length xs" by (cases "i < length xs") auto
  from Cons_nth_drop_Suc[OF l] d show ?thesis using l by simp
qed

lemma reprNodes_Nil: "reprNodes n h as [] \<Longrightarrow> as = []"
  by (cases as) simp_all

lemma reprNodes_Cons:
  "reprNodes n h as (el # rest) \<Longrightarrow>
   \<exists>a bs. as = a # bs \<and> reprNode n h a el \<and> reprNodes n h bs rest"
  by (cases as) simp_all

lemma reprNode_parts:
  assumes "reprNode n h a el"
  obtains obj refs where "a < n" "getObject h a = Some obj"
    "h_bounds obj < n" "getBounds h (h_bounds obj) = Some (bounds el)"
    "h_children obj < n" "getRefs h (h_children obj) = Some refs"
    "reprNodes n h refs (children el)"
  using assms[unfolded reprNode.simps[of n h a el]] by (auto split: option.splits)

lemma below_frame:
  "modifies {r} h h1 \<Longrightarrow> n \<le> r \<Longrightarrow> n \<le> nextAddr h \<Longrightarrow> \<forall>b<n. cells h1 b = cells h b"
  by (auto simp: modifies_def)

lemma findWalkH_returns:
  "\<lbrakk>reprNodes n h (drop i refs) els; getRefs h elements = Some refs; elements < n;
    n \<le> results; results < nextAddr h; getRefs h results \<noteq> None\<rbrakk>
   \<Longrightarrow> \<exists>N h3. (\<forall>fuel\<ge>N. findWalkH fuel selector results elements i h = Some h3) \<and>
          getRefs h3 results \<noteq> None"
proof (induction els arbitrary: h i refs elements rule: forest_induct)
  case 1
  from reprNodes_Nil[OF "1.prems"(1)] have "\<not> i < length refs" by simp
  then have "\<forall>fuel\<ge>Suc 0. findWalkH fuel selector results elements i h = Some h"
    using "1.prems"(2) by (auto simp: Suc_le_eq gr0_conv_Suc)
  then show ?case using "1.prems"(6) by blast
next
  case (2 el rest)
  from reprNodes_Cons[OF "2.prems"(1)] obtain a bs where
    d: "drop i refs = a # bs" and ra: "reprNode n h a el" and rr: "reprNodes n h bs rest"
    by blast
  from drop_Cons_nth[OF d] have i: "i < length refs" and ai: "refs ! i = a"
    and bs: "drop (Suc i) refs = bs" by simp_all
  from ra obtain obj crefs where a: "a < n" and o: "getObject h a = Some obj"
    and c: "h_children obj < n" "getRefs h (h_children obj) = Some crefs"
    and rc: "reprNodes n h crefs (children el)"
    by (rule reprNode_parts)
  have nn: "n \<le> nextAddr h" using "2.prems"(4,5) by simp
  have "\<exists>h1. (if selectorMatchH selector obj then pushRef results a h else Some h) = Some h1"
    using "2.prems"(6) by (cases "getRefs h results") (auto simp: pushRef_def)
  then obtain h1 where h1: "(if selectorMatchH selector obj then pushRef results a h else Some h) = Some h1"
    by blast
  have m1: "modifies {results} h h1" and n1: "nextAddr h1 = nextAddr h"
    using h1 modifies_pushRef[of results a h h1] by (auto simp: modifies_refl split: if_splits)
  have r1: "getRefs h1 results \<noteq> None"
    using h1 "2.prems"(6) by (auto simp: pushRef_def getRefs_def split: if_splits option.splits)
  have f1: "\<forall>b<n. cells h1 b = cells h b"
    using m1 "2.prems"(4) nn by (rule below_frame)
  have o1: "getObject h1 a = Some obj" using getters_frame(1)[OF f1 a] o by simp
  have "\<exists>N h3. (\<forall>fuel\<ge>N. findWalkH fuel selector results (h_children obj) 0 h1 = Some h3) \<and>
          getRefs h3 results \<noteq> None"
  proof (rule "2.IH"(1))
    show "reprNodes n h1 (drop 0 crefs) (children el)"
      using repr_frame(2)[OF rc f1] by simp
    show "getRefs h1 (h_children obj) = Some crefs"
      using getters_frame(2)[OF f1 c(1)] c(2) by simp
    show "h_children obj < n" by (rule c(1))
    show "n \<le> results" by (rule "2.prems"(4))
    show "results < nextAddr h1" using "2.prems"(5) n1 by simp
    show "getRefs h1 results \<noteq> None" by (rule r1)
  qed
  then obtain N1 h2 where w1: "\<forall>fuel\<ge>N1. findWalkH fuel selector results (h_children obj) 0 h1 = Some h2"
    and r2: "getRefs h2 results \<noteq> None" by blast
  have m2: "modifies {results} h1 h2" using w1 findWalkH_modifies by blast
  have f2: "\<forall>b<n. cells h2 b = cells h b"
    using f1 below_frame[OF m2 "2.prems"(4)] nn n1 by simp
  have "\<exists>N h3. (\<forall>fuel\<ge>N. findWalkH fuel selector results elements (Suc i) h2 = Some h3) \<and>
          getRefs h3 results \<noteq> None"
  proof (rule "2.IH"(2))
    show "reprNodes n h2 (drop (Suc i) refs) rest"
      using repr_frame(2)[OF rr f2] bs by simp
    show "getRefs h2 elements = Some refs"
      using getters_frame(2)[OF f2 "2.prems"(3)] "2.prems"(2) by simp
    show "elements < n" by (rule "2.prems"(3))
    show "n \<le> results" by (rule "2.prems"(4))
    show "results < nextAddr h2" using "2.prems"(5) n1 m2 by (simp add: modifies_def)
    show "getRefs h2 results \<noteq> None" by (rule r2)
  qed
  then obtain N2 h3 where w2: "\<forall>fuel\<ge>N2. findWalkH fuel selector results elements (Suc i) h2 = Some h3"
    and r3: "getRefs h3 results \<noteq> None" by blast
  have "\<forall>fuel\<ge>Suc (max N1 N2). findWalkH fuel selector results elements i h = Some h3"
  proof (intro allI impI)
    fix fuel assume "Suc (max N1 N2) \<le> fuel"
    then obtain f where fu: "fuel = Suc f" and f1: "N1 \<le> f" and f2: "N2 \<le> f"
      by (cases fuel) auto
    from w1 f1 have w1f: "findWalkH f selector results (h_children obj) 0 h1 = Some h2"
      by blast
    from w2 f2 have w2f: "findWalkH f selector results elements (Suc i) h2 = Some h3"
      by blast
    show "findWalkH fuel selector results elements i h = Some h3"
      unfolding fu using "2.prems"(2) i ai o h1 o1 w1f w2f by (auto split: if_splits)
  qed
  then show ?case using r3 by blast
qed

text \<open>On a store that holds a forest the visits and the walks return.\<close>

lemma pushStrIf_returns:
  "getStrs h p = Some strs \<Longrightarrow>
   \<exists>h1 strs1. pushStrIf c p v h = Some h1 \<and> getStrs h1 p = Some strs1 \<and> modifies {p} h h1 \<and>
      nextAddr h1 = nextAddr h"
  by (auto simp: pushStrIf_def pushStr_def getStrs_def modifies_def)

lemma pushStr_returns:
  "getStrs h p = Some strs \<Longrightarrow>
   \<exists>h1 strs1. pushStr p v h = Some h1 \<and> getStrs h1 p = Some strs1 \<and> modifies {p} h h1 \<and>
      nextAddr h1 = nextAddr h"
  by (auto simp: pushStr_def getStrs_def modifies_def)

lemma compactVisitH_returns:
  assumes o: "getObject h ref = Some obj"
    and b: "getBounds h (h_bounds obj) = Some b" "h_bounds obj < nextAddr h"
    and l: "lines < nextAddr h" "getStrs h lines = Some ls"
  shows "\<exists>h1 ls1. compactVisitH lines depth ref h = Some h1 \<and> getStrs h1 lines = Some ls1"
proof -
  obtain parts h0 where a: "alloc (StrArray [shortenClassName (h_class obj)]) h = (parts, h0)"
    by (cases "alloc (StrArray [shortenClassName (h_class obj)]) h") auto
  then have pa: "parts = nextAddr h" and n0: "nextAddr h0 = Suc (nextAddr h)"
    and m0: "modifies {} h h0"
    and p0: "getStrs h0 parts = Some [shortenClassName (h_class obj)]"
    by (auto simp: alloc_def getStrs_def modifies_def)
  have keep: "getBounds h1 (h_bounds obj) = Some b \<and> getStrs h1 lines = Some ls"
    if "modifies {parts} h0 h1" for h1
  proof -
    have "modifies {} h h1" using m0 that by (rule modifies_trans) (simp add: pa)
    then show ?thesis
      using getBounds_modifies[of "{}" h h1 "h_bounds obj"] getStrs_modifies[of "{}" h h1 lines] b l
      by simp
  qed
  let ?s2 = "[dquote] @ h_text obj @ [dquote]"
  let ?s3 = "''['' @ showNumber (bounds_x b) @ '','' @ showNumber (bounds_y b) @ '' '' @
             showNumber (bounds_width b) @ ''x'' @ showNumber (bounds_height b) @ '']''"
  let ?s4 = "''id:'' @ (if includesStr (h_resource_id obj) ''/''
                          then last (split CHR ''/'' (h_resource_id obj))
                          else h_resource_id obj)"
  let ?s5 = "''desc:'' @ [dquote] @ h_content_desc obj @ [dquote]"
  from pushStrIf_returns[OF p0] obtain h1 t1 where
    h1: "pushStrIf (h_text obj \<noteq> []) parts ?s2 h0 = Some h1" "getStrs h1 parts = Some t1"
      "modifies {parts} h0 h1" by blast
  from pushStr_returns[OF h1(2)] obtain h2 t2 where
    h2: "pushStr parts ?s3 h1 = Some h2" "getStrs h2 parts = Some t2" "modifies {parts} h1 h2"
    by blast
  from pushStrIf_returns[OF h2(2)] obtain h3 t3 where
    h3: "pushStrIf (h_resource_id obj \<noteq> []) parts ?s4 h2 = Some h3" "getStrs h3 parts = Some t3"
      "modifies {parts} h2 h3" by blast
  from pushStrIf_returns[OF h3(2)] obtain h4 t4 where
    h4: "pushStrIf (h_content_desc obj \<noteq> []) parts ?s5 h3 = Some h4" "getStrs h4 parts = Some t4"
      "modifies {parts} h3 h4" by blast
  from pushStrIf_returns[OF h4(2)] obtain h5 t5 where
    h5: "pushStrIf (h_clickable obj) parts ''[clickable]'' h4 = Some h5" "getStrs h5 parts = Some t5"
      "modifies {parts} h4 h5" by blast
  from pushStrIf_returns[OF h5(2)] obtain h6 t6 where
    h6: "pushStrIf (h_scrollable obj) parts ''[scrollable]'' h5 = Some h6" "getStrs h6 parts = Some t6"
      "modifies {parts} h5 h6" by blast
  have m1: "modifies {parts} h0 h1" by (rule h1(3))
  have m6: "modifies {parts} h0 h6"
    using h1(3) h2(3) h3(3) h4(3) h5(3) h6(3) by (blast intro: modifies_same)
  have b1: "getBounds h1 (h_bounds obj) = Some b" using keep[OF m1] by simp
  have l6: "getStrs h6 lines = Some ls" using keep[OF m6] by simp
  from pushStr_returns[OF l6] obtain h7 ls1 where
    h7: "pushStr lines (concat (replicate depth ''  '') @ join '' '' t6) h6 = Some h7"
      "getStrs h7 lines = Some ls1" by blast
  have "compactVisitH lines depth ref h = Some h7"
    using o a h1(1) b1 h2(1) h3(1) h4(1) h5(1) h6(1,2) h7(1)
    by (simp add: compactVisitH_def)
  then show ?thesis using h7(2) by blast
qed

lemma flattenVisitH_returns:
  assumes "getObject h ref = Some obj" and "result < nextAddr h" and "getRefs h result = Some rs"
  shows "\<exists>h1 rs1. flattenVisitH result depth ref h = Some h1 \<and> getRefs h1 result = Some rs1"
  using assms
  by (auto simp: flattenVisitH_def alloc_def pushRef_def getRefs_def split: option.splits)

lemma compactLoopH_returns:
  "\<lbrakk>reprNodes n h (drop i refs) els; getRefs h elements = Some refs; elements < n;
    n \<le> lines; lines < nextAddr h; getStrs h lines \<noteq> None\<rbrakk>
   \<Longrightarrow> \<exists>N h3. (\<forall>fuel\<ge>N. compactLoopH fuel maxDepth lines elements depth i h = Some h3) \<and>
          getStrs h3 lines \<noteq> None"
proof (induction els arbitrary: h i refs elements depth rule: forest_induct)
  case 1
  from reprNodes_Nil[OF "1.prems"(1)] have "\<not> i < length refs" by simp
  then have "\<forall>fuel\<ge>Suc 0. compactLoopH fuel maxDepth lines elements depth i h = Some h"
    using "1.prems"(2) by (auto simp: Suc_le_eq gr0_conv_Suc)
  then show ?case using "1.prems"(6) by blast
next
  case (2 el rest)
  from reprNodes_Cons[OF "2.prems"(1)] obtain a bs where
    d: "drop i refs = a # bs" and ra: "reprNode n h a el" and rr: "reprNodes n h bs rest"
    by blast
  from drop_Cons_nth[OF d] have i: "i < length refs" and ai: "refs ! i = a"
    and bs: "drop (Suc i) refs = bs" by simp_all
  from ra obtain obj crefs where a: "a < n" and o: "getObject h a = Some obj"
    and b: "h_bounds obj < n" "getBounds h (h_bounds obj) = Some (bounds el)"
    and c: "h_children obj < n" "getRefs h (h_children obj) = Some crefs"
    and rc: "reprNodes n h crefs (children el)"
    by (rule reprNode_parts)
  have nn: "n \<le> nextAddr h" using "2.prems"(4,5) by simp
  from "2.prems"(6) obtain xs where xs: "getStrs h lines = Some xs" by blast
  have "\<exists>h1 xs1. compactVisitH lines depth a h = Some h1 \<and> getStrs h1 lines = Some xs1"
    proof -
    have "h_bounds obj < nextAddr h" using b(1) nn by simp
    from compactVisitH_returns[OF o b(2) this "2.prems"(5) xs] show ?thesis .
  qed
  then obtain h1 where v: "compactVisitH lines depth a h = Some h1"
    and r1: "getStrs h1 lines \<noteq> None" by auto
  have m1: "modifies {lines} h h1" using v by (rule compactVisitH_modifies)
  have n1: "nextAddr h \<le> nextAddr h1" using m1 by (simp add: modifies_def)
  have f1: "\<forall>b<n. cells h1 b = cells h b"
    using m1 "2.prems"(4) nn by (rule below_frame)
  have o1: "getObject h1 a = Some obj" using getters_frame(1)[OF f1 a] o by simp
  have "\<exists>N h3. (\<forall>fuel\<ge>N. compactWalkH fuel maxDepth lines (h_children obj) (depth + 1) h1 = Some h3) \<and>
          getStrs h3 lines \<noteq> None"
  proof (cases "int (depth + 1) > maxDepth")
    case True
    then have "\<forall>fuel\<ge>Suc 0. compactWalkH fuel maxDepth lines (h_children obj) (depth + 1) h1 = Some h1"
      by (auto simp: Suc_le_eq gr0_conv_Suc)
    then show ?thesis using r1 by blast
  next
    case False
    have "\<exists>N h3. (\<forall>fuel\<ge>N. compactLoopH fuel maxDepth lines (h_children obj) (depth + 1) 0 h1 = Some h3) \<and>
          getStrs h3 lines \<noteq> None"
    proof (rule "2.IH"(1))
      show "reprNodes n h1 (drop 0 crefs) (children el)"
        using repr_frame(2)[OF rc f1] by simp
      show "getRefs h1 (h_children obj) = Some crefs"
        using getters_frame(2)[OF f1 c(1)] c(2) by simp
      show "h_children obj < n" by (rule c(1))
      show "n \<le> lines" by (rule "2.prems"(4))
      show "lines < nextAddr h1" using "2.prems"(5) n1 by simp
      show "getStrs h1 lines \<noteq> None" by (rule r1)
    qed
    then obtain N0 h2 where
      l0: "\<forall>fuel\<ge>N0. compactLoopH fuel maxDepth lines (h_children obj) (depth + 1) 0 h1 = Some h2"
      and r2: "getStrs h2 lines \<noteq> None" by blast
    have "\<forall>fuel\<ge>Suc N0. compactWalkH fuel maxDepth lines (h_children obj) (depth + 1) h1 = Some h2"
    proof (intro allI impI)
      fix fuel assume "Suc N0 \<le> fuel"
      then obtain f where fu: "fuel = Suc f" and f0: "N0 \<le> f" by (cases fuel) auto
      from l0 f0 have "compactLoopH f maxDepth lines (h_children obj) (depth + 1) 0 h1 = Some h2"
        by blast
      then show "compactWalkH fuel maxDepth lines (h_children obj) (depth + 1) h1 = Some h2"
        unfolding fu using False by simp
    qed
    then show ?thesis using r2 by blast
  qed
  then obtain N1 h2 where
    w1: "\<forall>fuel\<ge>N1. compactWalkH fuel maxDepth lines (h_children obj) (depth + 1) h1 = Some h2"
    and r2: "getStrs h2 lines \<noteq> None" by blast
  have m2: "modifies {lines} h1 h2" using w1 compactWalkH_modifies(1) by blast
  have n2: "nextAddr h1 \<le> nextAddr h2" using m2 by (simp add: modifies_def)
  have f2: "\<forall>b<n. cells h2 b = cells h b"
    using f1 below_frame[OF m2 "2.prems"(4)] nn n1 by simp
  have "\<exists>N h3. (\<forall>fuel\<ge>N. compactLoopH fuel maxDepth lines elements depth (Suc i) h2 = Some h3) \<and>
          getStrs h3 lines \<noteq> None"
  proof (rule "2.IH"(2))
    show "reprNodes n h2 (drop (Suc i) refs) rest"
      using repr_frame(2)[OF rr f2] bs by simp
    show "getRefs h2 elements = Some refs"
      using getters_frame(2)[OF f2 "2.prems"(3)] "2.prems"(2) by simp
    show "elements < n" by (rule "2.prems"(3))
    show "n \<le> lines" by (rule "2.prems"(4))
    show "lines < nextAddr h2" using "2.prems"(5) n1 n2 by simp
    show "getStrs h2 lines \<noteq> None" by (rule r2)
  qed
  then obtain N2 h3 where
    w2: "\<forall>fuel\<ge>N2. compactLoopH fuel maxDepth lines elements depth (Suc i) h2 = Some h3"
    and r3: "getStrs h3 lines \<noteq> None" by blast
  have "\<forall>fuel\<ge>Suc (max N1 N2). compactLoopH fuel maxDepth lines elements depth i h = Some h3"
  proof (intro allI impI)
    fix fuel assume "Suc (max N1 N2) \<le> fuel"
    then obtain f where fu: "fuel = Suc f" and f1: "N1 \<le> f" and f2: "N2 \<le> f"
      by (cases fuel) auto
    from w1 f1 have w1f: "compactWalkH f maxDepth lines (h_children obj) (depth + 1) h1 = Some h2"
      by blast
    from w2 f2 have w2f: "compactLoopH f maxDepth lines elements depth (Suc i) h2 = Some h3"
      by blast
    show "compactLoopH fuel maxDepth lines elements depth i h = Some h3"
      unfolding fu using "2.prems"(2) i ai v o1 w1f w2f by simp
  qed
  then show ?case using r3 by blast
qed

lemma compactWalkH_returns:
  assumes "reprNodes n h refs els" "getRefs h elements = Some refs" "elements < n"
    "n \<le> lines" "lines < nextAddr h" "getStrs h lines \<noteq> None"
  shows "\<exists>N h3. (\<forall>fuel\<ge>N. compactWalkH fuel maxDepth lines elements depth h = Some h3) \<and>
          getStrs h3 lines \<noteq> None"
proof (cases "int depth > maxDepth")
  case True
  then have "\<forall>fuel\<ge>Suc 0. compactWalkH fuel maxDepth lines elements depth h = Some h"
    by (auto simp: Suc_le_eq gr0_conv_Suc)
  then show ?thesis using assms(6) by blast
next
  case False
  have "reprNodes n h (drop 0 refs) els" using assms(1) by simp
  from compactLoopH_returns[OF this assms(2-6), of maxDepth depth] obtain N0 h2 where
    l0: "\<forall>fuel\<ge>N0. compactLoopH fuel maxDepth lines elements depth 0 h = Some h2"
    and r2: "getStrs h2 lines \<noteq> None" by blast
  have "\<forall>fuel\<ge>Suc N0. compactWalkH fuel maxDepth lines elements depth h = Some h2"
  proof (intro allI impI)
    fix fuel assume "Suc N0 \<le> fuel"
    then obtain f where fu: "fuel = Suc f" and f0: "N0 \<le> f" by (cases fuel) auto
    from l0 f0 have "compactLoopH f maxDepth lines elements depth 0 h = Some h2" by blast
    then show "compactWalkH fuel maxDepth lines elements depth h = Some h2"
      unfolding fu using False by simp
  qed
  then show ?thesis using r2 by blast
qed

lemma flattenLoopH_returns:
  "\<lbrakk>reprNodes n h (drop i refs) els; getRefs h elements = Some refs; elements < n;
    n \<le> result; result < nextAddr h; getRefs h result \<noteq> None\<rbrakk>
   \<Longrightarrow> \<exists>N h3. (\<forall>fuel\<ge>N. flattenLoopH fuel maxDepth result elements depth i h = Some h3) \<and>
          getRefs h3 result \<noteq> None"
proof (induction els arbitrary: h i refs elements depth rule: forest_induct)
  case 1
  from reprNodes_Nil[OF "1.prems"(1)] have "\<not> i < length refs" by simp
  then have "\<forall>fuel\<ge>Suc 0. flattenLoopH fuel maxDepth result elements depth i h = Some h"
    using "1.prems"(2) by (auto simp: Suc_le_eq gr0_conv_Suc)
  then show ?case using "1.prems"(6) by blast
next
  case (2 el rest)
  from reprNodes_Cons[OF "2.prems"(1)] obtain a bs where
    d: "drop i refs = a # bs" and ra: "reprNode n h a el" and rr: "reprNodes n h bs rest"
    by blast
  from drop_Cons_nth[OF d] have i: "i < length refs" and ai: "refs ! i = a"
    and bs: "drop (Suc i) refs = bs" by simp_all
  from ra obtain obj crefs where a: "a < n" and o: "getObject h a = Some obj"
    and b: "h_bounds obj < n" "getBounds h (h_bounds obj) = Some (bounds el)"
    and c: "h_children obj < n" "getRefs h (h_children obj) = Some crefs"
    and rc: "reprNodes n h crefs (children el)"
    by (rule reprNode_parts)
  have nn: "n \<le> nextAddr h" using "2.prems"(4,5) by simp
  from "2.prems"(6) obtain xs where xs: "getRefs h result = Some xs" by blast
  have "\<exists>h1 xs1. flattenVisitH result depth a h = Some h1 \<and> getRefs h1 result = Some xs1"
    by (rule flattenVisitH_returns[OF o "2.prems"(5) xs])
  then obtain h1 where v: "flattenVisitH result depth a h = Some h1"
    and r1: "getRefs h1 result \<noteq> None" by auto
  have m1: "modifies {result} h h1" using v by (rule flattenVisitH_modifies)
  have n1: "nextAddr h \<le> nextAddr h1" using m1 by (simp add: modifies_def)
  have f1: "\<forall>b<n. cells h1 b = cells h b"
    using m1 "2.prems"(4) nn by (rule below_frame)
  have o1: "getObject h1 a = Some obj" using getters_frame(1)[OF f1 a] o by simp
  have "\<exists>N h3. (\<forall>fuel\<ge>N. flattenWalkH fuel maxDepth result (h_children obj) (depth + 1) h1 = Some h3) \<and>
          getRefs h3 result \<noteq> None"
  proof (cases "int (depth + 1) > maxDepth")
    case True
    then have "\<forall>fuel\<ge>Suc 0. flattenWalkH fuel maxDepth result (h_children obj) (depth + 1) h1 = Some h1"
      by (auto simp: Suc_le_eq gr0_conv_Suc)
    then show ?thesis using r1 by blast
  next
    case False
    have "\<exists>N h3. (\<forall>fuel\<ge>N. flattenLoopH fuel maxDepth result (h_children obj) (depth + 1) 0 h1 = Some h3) \<and>
          getRefs h3 result \<noteq> None"
    proof (rule "2.IH"(1))
      show "reprNodes n h1 (drop 0 crefs) (children el)"
        using repr_frame(2)[OF rc f1] by simp
      show "getRefs h1 (h_children obj) = Some crefs"
        using getters_frame(2)[OF f1 c(1)] c(2) by simp
      show "h_children obj < n" by (rule c(1))
      show "n \<le> result" by (rule "2.prems"(4))
      show "result < nextAddr h1" using "2.prems"(5) n1 by simp
      show "getRefs h1 result \<noteq> None" by (rule r1)
    qed
    then obtain N0 h2 where
      l0: "\<forall>fuel\<ge>N0. flattenLoopH fuel maxDepth result (h_children obj) (depth + 1) 0 h1 = Some h2"
      and r2: "getRefs h2 result \<noteq> None" by blast
    have "\<forall>fuel\<ge>Suc N0. flattenWalkH fuel maxDepth result (h_children obj) (depth + 1) h1 = Some h2"
    proof (intro allI impI)
      fix fuel assume "Suc N0 \<le> fuel"
      then obtain f where fu: "fuel = Suc f" and f0: "N0 \<le> f" by (cases fuel) auto
      from l0 f0 have "flattenLoopH f maxDepth result (h_children obj) (depth + 1) 0 h1 = Some h2"
        by blast
      then show "flattenWalkH fuel maxDepth result (h_children obj) (depth + 1) h1 = Some h2"
        unfolding fu using False by simp
    qed
    then show ?thesis using r2 by blast
  qed
  then obtain N1 h2 where
    w1: "\<forall>fuel\<ge>N1. flattenWalkH fuel maxDepth result (h_children obj) (depth + 1) h1 = Some h2"
    and r2: "getRefs h2 result \<noteq> None" by blast
  have m2: "modifies {result} h1 h2" using w1 flattenWalkH_modifies(1) by blast
  have n2: "nextAddr h1 \<le> nextAddr h2" using m2 by (simp add: modifies_def)
  have f2: "\<forall>b<n. cells h2 b = cells h b"
    using f1 below_frame[OF m2 "2.prems"(4)] nn n1 by simp
  have "\<exists>N h3. (\<forall>fuel\<ge>N. flattenLoopH fuel maxDepth result elements depth (Suc i) h2 = Some h3) \<and>
          getRefs h3 result \<noteq> None"
  proof (rule "2.IH"(2))
    show "reprNodes n h2 (drop (Suc i) refs) rest"
      using repr_frame(2)[OF rr f2] bs by simp
    show "getRefs h2 elements = Some refs"
      using getters_frame(2)[OF f2 "2.prems"(3)] "2.prems"(2) by simp
    show "elements < n" by (rule "2.prems"(3))
    show "n \<le> result" by (rule "2.prems"(4))
    show "result < nextAddr h2" using "2.prems"(5) n1 n2 by simp
    show "getRefs h2 result \<noteq> None" by (rule r2)
  qed
  then obtain N2 h3 where
    w2: "\<forall>fuel\<ge>N2. flattenLoopH fuel maxDepth result elements depth (Suc i) h2 = Some h3"
    and r3: "getRefs h3 result \<noteq> None" by blast
  have "\<forall>fuel\<ge>Suc (max N1 N2). flattenLoopH fuel maxDepth result elements depth i h = Some h3"
  proof (intro allI impI)
    fix fuel assume "Suc (max N1 N2) \<le> fuel"
    then obtain f where fu: "fuel = Suc f" and f1: "N1 \<le> f" and f2: "N2 \<le> f"
      by (cases fuel) auto
    from w1 f1 have w1f: "flattenWalkH f maxDepth result (h_children obj) (depth + 1) h1 = Some h2"
      by blast
    from w2 f2 have w2f: "flattenLoopH f maxDepth result elements depth (Suc i) h2 = Some h3"
      by blast
    show "flattenLoopH fuel maxDepth result elements depth i h = Some h3"
      unfolding fu using "2.prems"(2) i ai v o1 w1f w2f by simp
  qed
  then show ?case using r3 by blast
qed

lemma flattenWalkH_returns:
  assumes "reprNodes n h refs els" "getRefs h elements = Some refs" "elements < n"
    "n \<le> result" "result < nextAddr h" "getRefs h result \<noteq> None"
  shows "\<exists>N h3. (\<forall>fuel\<ge>N. flattenWalkH fuel maxDepth result elements depth h = Some h3) \<and>
          getRefs h3 result \<noteq> None"
proof (cases "int depth > maxDepth")
  case True
  then have "\<forall>fuel\<ge>Suc 0. flattenWalkH fuel maxDepth result elements depth h = Some h"
    by (auto simp: Suc_le_eq gr0_conv_Suc)
  then show ?thesis using assms(6) by blast
next
  case False
  have "reprNodes n h (drop 0 refs) els" using assms(1) by simp
  from flattenLoopH_returns[OF this assms(2-6), of maxDepth depth] obtain N0 h2 where
    l0: "\<forall>fuel\<ge>N0. flattenLoopH fuel maxDepth result elements depth 0 h = Some h2"
    and r2: "getRefs h2 result \<noteq> None" by blast
  have "\<forall>fuel\<ge>Suc N0. flattenWalkH fuel maxDepth result elements depth h = Some h2"
  proof (intro allI impI)
    fix fuel assume "Suc N0 \<le> fuel"
    then obtain f where fu: "fuel = Suc f" and f0: "N0 \<le> f" by (cases fuel) auto
    from l0 f0 have "flattenLoopH f maxDepth result elements depth 0 h = Some h2" by blast
    then show "flattenWalkH fuel maxDepth result elements depth h = Some h2"
      unfolding fu using False by simp
  qed
  then show ?thesis using r2 by blast
qed

lemma alloc_setup:
  assumes "reprForest h roots forest" and "alloc c h = (r, h0)"
  obtains refs where "reprNodes (nextAddr h) h0 refs forest" "getRefs h0 roots = Some refs"
    "roots < nextAddr h" "nextAddr h \<le> r" "r < nextAddr h0" "cells h0 r = Some c"
proof -
  from assms(1) obtain refs where r: "roots < nextAddr h" "getRefs h roots = Some refs"
    "reprNodes (nextAddr h) h refs forest"
    by (auto simp: reprForest_def split: option.splits)
  have f: "\<forall>b<nextAddr h. cells h0 b = cells h b"
    using assms(2) by (auto simp: alloc_def)
  have "reprNodes (nextAddr h) h0 refs forest" using repr_frame(2)[OF r(3) f] .
  moreover have "getRefs h0 roots = Some refs" using getters_frame(2)[OF f r(1)] r(2) by simp
  moreover have "nextAddr h \<le> r" "r < nextAddr h0" "cells h0 r = Some c"
    using assms(2) by (auto simp: alloc_def)
  ultimately show ?thesis using r(1) that by blast
qed

lemma findElementsH_returns:
  assumes "reprForest h roots forest"
  shows "\<exists>N out. \<forall>fuel\<ge>N. findElementsH fuel roots selector h = Some out"
proof -
  obtain r h0 where al: "alloc (RefArray []) h = (r, h0)" by (cases "alloc (RefArray []) h") auto
  from assms al obtain refs where s: "reprNodes (nextAddr h) h0 refs forest"
    "getRefs h0 roots = Some refs" "roots < nextAddr h" "nextAddr h \<le> r" "r < nextAddr h0"
    "cells h0 r = Some (RefArray [])"
    by (rule alloc_setup)
  have "reprNodes (nextAddr h) h0 (drop 0 refs) forest" using s(1) by simp
  moreover have "getRefs h0 r \<noteq> None" using s(6) by (simp add: getRefs_def)
  ultimately obtain N h3 where "\<forall>fuel\<ge>N. findWalkH fuel selector r roots 0 h0 = Some h3"
    using findWalkH_returns[OF _ s(2,3,4,5), of 0 forest selector] by blast
  then have "\<forall>fuel\<ge>N. findElementsH fuel roots selector h = Some (r, h3)"
    using al by (simp add: findElementsH_def)
  then show ?thesis by blast
qed

lemma formatCompactTreeH_returns:
  assumes "reprForest h roots forest"
  shows "\<exists>N out. \<forall>fuel\<ge>N. formatCompactTreeH fuel roots maxDepthArg h = Some out"
proof -
  obtain r h0 where al: "alloc (StrArray []) h = (r, h0)" by (cases "alloc (StrArray []) h") auto
  from assms al obtain refs where s: "reprNodes (nextAddr h) h0 refs forest"
    "getRefs h0 roots = Some refs" "roots < nextAddr h" "nextAddr h \<le> r" "r < nextAddr h0"
    "cells h0 r = Some (StrArray [])"
    by (rule alloc_setup)
  let ?k = "case maxDepthArg of None \<Rightarrow> 15 | Some k \<Rightarrow> k"
  have "getStrs h0 r \<noteq> None" using s(6) by (simp add: getStrs_def)
  from compactWalkH_returns[OF s(1,2,3,4,5) this, of ?k 0] obtain N h3 strs where
    "\<forall>fuel\<ge>N. compactWalkH fuel ?k r roots 0 h0 = Some h3" "getStrs h3 r = Some strs"
    by blast
  then have "\<forall>fuel\<ge>N. formatCompactTreeH fuel roots maxDepthArg h = Some (join [CHR 0x0A] strs, h3)"
    using al by (simp add: formatCompactTreeH_def)
  then show ?thesis by blast
qed

lemma flattenHierarchyH_returns:
  assumes "reprForest h roots forest"
  shows "\<exists>N out. \<forall>fuel\<ge>N. flattenHierarchyH fuel roots maxDepthArg h = Some out"
proof -
  obtain r h0 where al: "alloc (RefArray []) h = (r, h0)" by (cases "alloc (RefArray []) h") auto
  from assms al obtain refs where s: "reprNodes (nextAddr h) h0 refs forest"
    "getRefs h0 roots = Some refs" "roots < nextAddr h" "nextAddr h \<le> r" "r < nextAddr h0"
    "cells h0 r = Some (RefArray [])"
    by (rule alloc_setup)
  let ?k = "case maxDepthArg of None \<Rightarrow> 20 | Some k \<Rightarrow> k"
  have "getRefs h0 r \<noteq> None" using s(6) by (simp add: getRefs_def)
  from flattenWalkH_returns[OF s(1,2,3,4,5) this, of ?k 0] obtain N h3 where
    "\<forall>fuel\<ge>N. flattenWalkH fuel ?k r roots 0 h0 = Some h3"
    by blast
  then have "\<forall>fuel\<ge>N. flattenHierarchyH fuel roots maxDepthArg h = Some (r, h3)"
    using al by (simp add: flattenHierarchyH_def)
  then show ?thesis by blast
qed

lemma modifies_nothing: "modifies {} h h1 \<Longrightarrow> \<forall>a<nextAddr h. cells h1 a = cells h a"
  by (simp add: modifies_def)

text \<open>
  Claim C10. A call of \<^verbatim>\<open>findElements\<close>, \<^verbatim>\<open>formatCompactTree\<close> or \<^verbatim>\<open>flattenHierarchy\<close> that
  returns leaves every cell that was allocated before the call as it was, so the store
  still holds the same forest behind the roots: every node has its fields, its rectangle
  and its children. What \<^verbatim>\<open>flattenHierarchy\<close> returns is a new array of new objects, each
  with a new empty \<^verbatim>\<open>children\<close> array of its own. On a store that holds a forest, each of
  the three calls returns once the fuel suffices.
\<close>

theorem read_only_frame:
  "(findElementsH fuel roots selector h = Some (results, h1) \<longrightarrow>
      (\<forall>a<nextAddr h. cells h1 a = cells h a) \<and>
      (reprForest h roots forest \<longrightarrow> reprForest h1 roots forest)) \<and>
   (formatCompactTreeH fuel roots maxDepthArg h = Some (text, h2) \<longrightarrow>
      (\<forall>a<nextAddr h. cells h2 a = cells h a) \<and>
      (reprForest h roots forest \<longrightarrow> reprForest h2 roots forest)) \<and>
   (flattenHierarchyH fuel roots maxDepthArg h = Some (result, h3) \<longrightarrow>
      (\<forall>a<nextAddr h. cells h3 a = cells h a) \<and>
      (reprForest h roots forest \<longrightarrow> reprForest h3 roots forest) \<and>
      result = nextAddr h \<and> freshRecords h3 result) \<and>
   (reprForest h roots forest \<longrightarrow>
      (\<exists>N. \<forall>fuel\<ge>N.
         (\<exists>out. findElementsH fuel roots selector h = Some out) \<and>
         (\<exists>out. formatCompactTreeH fuel roots maxDepthArg h = Some out) \<and>
         (\<exists>out. flattenHierarchyH fuel roots maxDepthArg h = Some out)))"
proof (intro conjI impI)
  assume a: "findElementsH fuel roots selector h = Some (results, h1)"
  then have m: "modifies {} h h1" using findElementsH_modifies by blast
  then show "\<forall>a<nextAddr h. cells h1 a = cells h a" by (rule modifies_nothing)
  show "reprForest h1 roots forest" if "reprForest h roots forest"
    using that m by (rule reprForest_modifies)
next
  assume a: "formatCompactTreeH fuel roots maxDepthArg h = Some (text, h2)"
  then have m: "modifies {} h h2" by (rule formatCompactTreeH_modifies)
  then show "\<forall>a<nextAddr h. cells h2 a = cells h a" by (rule modifies_nothing)
  show "reprForest h2 roots forest" if "reprForest h roots forest"
    using that m by (rule reprForest_modifies)
next
  assume a: "flattenHierarchyH fuel roots maxDepthArg h = Some (result, h3)"
  from flattenHierarchyH_modifies[OF a]
  have m: "modifies {} h h3" and r: "result = nextAddr h" and f: "freshRecords h3 result"
    by blast+
  from m show "\<forall>a<nextAddr h. cells h3 a = cells h a" by (rule modifies_nothing)
  show "reprForest h3 roots forest" if "reprForest h roots forest"
    using that m by (rule reprForest_modifies)
  show "result = nextAddr h" by (rule r)
  show "freshRecords h3 result" by (rule f)
next
  assume r: "reprForest h roots forest"
  from findElementsH_returns[OF r, of selector] obtain N1 o1 where
    1: "\<forall>fuel\<ge>N1. findElementsH fuel roots selector h = Some o1" by blast
  from formatCompactTreeH_returns[OF r, of maxDepthArg] obtain N2 o2 where
    2: "\<forall>fuel\<ge>N2. formatCompactTreeH fuel roots maxDepthArg h = Some o2" by blast
  from flattenHierarchyH_returns[OF r, of maxDepthArg] obtain N3 o3 where
    3: "\<forall>fuel\<ge>N3. flattenHierarchyH fuel roots maxDepthArg h = Some o3" by blast
  have "\<forall>fuel\<ge>max N1 (max N2 N3).
         (\<exists>out. findElementsH fuel roots selector h = Some out) \<and>
         (\<exists>out. formatCompactTreeH fuel roots maxDepthArg h = Some out) \<and>
         (\<exists>out. flattenHierarchyH fuel roots maxDepthArg h = Some out)"
    using 1 2 3 by simp
  then show "\<exists>N. \<forall>fuel\<ge>N.
         (\<exists>out. findElementsH fuel roots selector h = Some out) \<and>
         (\<exists>out. formatCompactTreeH fuel roots maxDepthArg h = Some out) \<and>
         (\<exists>out. flattenHierarchyH fuel roots maxDepthArg h = Some out)"
    by blast
qed


text \<open>The theorem at the example store; the text of the compact rendering over the store
  is the one over the forest.\<close>

theorem read_only_frame_witness:
  "reprForest exampleHeap 6 exampleForest \<and>
   (\<exists>r h1. findElementsH 8 6 \<lparr>selector_resource_id = Some ''c'', selector_text = None,
               selector_content_desc = None\<rparr> exampleHeap = Some (r, h1) \<and>
            getRefs h1 r = Some [2] \<and> reprForest h1 6 exampleForest) \<and>
   (\<exists>t h2. formatCompactTreeH 8 6 None exampleHeap = Some (t, h2) \<and>
            t = formatCompactTree exampleForest None \<and> reprForest h2 6 exampleForest) \<and>
   (\<exists>r h3. flattenHierarchyH 8 6 None exampleHeap = Some (r, h3) \<and>
            getRefs h3 r = Some [9, 11] \<and> reprForest h3 6 exampleForest \<and> freshRecords h3 r)"
proof -
  let ?sel = "\<lparr>selector_resource_id = Some ''c'', selector_text = None,
               selector_content_desc = None\<rparr>"
  have rf: "reprForest exampleHeap 6 exampleForest" by code_simp
  have "case findElementsH 8 6 ?sel exampleHeap of
          None \<Rightarrow> False | Some (r, h1) \<Rightarrow> getRefs h1 r = Some [2]"
    by code_simp
  then obtain r1 h1 where 1: "findElementsH 8 6 ?sel exampleHeap = Some (r1, h1)"
    and g1: "getRefs h1 r1 = Some [2]"
    by (cases "findElementsH 8 6 ?sel exampleHeap") auto
  have "case formatCompactTreeH 8 6 None
               \<lparr>cells = Map.empty
                  (0 \<mapsto> BoundsCell bc,
                   1 \<mapsto> RefArray [],
                   2 \<mapsto> ObjectCell (HObject ''c'' [] [] [] [] 0 True False False 1 None),
                   3 \<mapsto> RefArray [2],
                   4 \<mapsto> BoundsCell bp,
                   5 \<mapsto> ObjectCell (HObject ''p'' [] [] [] [] 4 False False False 3 None),
                   6 \<mapsto> RefArray [5]),
                nextAddr = 7\<rparr> of
          None \<Rightarrow> False
        | Some (t, h2) \<Rightarrow>
            t = formatCompactTree
                  [UiElement ''p'' [] [] [] [] bp False False False
                     [UiElement ''c'' [] [] [] [] bc True False False []]] None"
    for bc bp
    by code_simp
  then have "case formatCompactTreeH 8 6 None exampleHeap of
          None \<Rightarrow> False | Some (t, h2) \<Rightarrow> t = formatCompactTree exampleForest None"
    unfolding exampleHeap_def exampleForest_def .
  then obtain t2 h2 where 2: "formatCompactTreeH 8 6 None exampleHeap = Some (t2, h2)"
    and g2: "t2 = formatCompactTree exampleForest None"
    by (cases "formatCompactTreeH 8 6 None exampleHeap") auto
  have "case flattenHierarchyH 8 6 None exampleHeap of
          None \<Rightarrow> False | Some (r, h3) \<Rightarrow> getRefs h3 r = Some [9, 11]"
    by code_simp
  then obtain r3 h3 where 3: "flattenHierarchyH 8 6 None exampleHeap = Some (r3, h3)"
    and g3: "getRefs h3 r3 = Some [9, 11]"
    by (cases "flattenHierarchyH 8 6 None exampleHeap") auto
  from read_only_frame[of 8 6 ?sel exampleHeap r1 h1 exampleForest None t2 h2 r3 h3] rf 1 2 3
  have "reprForest h1 6 exampleForest" "reprForest h2 6 exampleForest"
    "reprForest h3 6 exampleForest" "freshRecords h3 r3"
    by blast+
  with rf 1 2 3 g1 g2 g3 show ?thesis by blast
qed

end
